theory Spec2Isabelle
  imports Main
begin

section \<open>Values of the JavaScript runtime\<close>

text \<open>
  A \<open>Date\<close> object holds a time value: an integral number of milliseconds since the epoch,
  or NaN (an invalid date). \<open>TimeClip\<close> is the operation of the language standard that
  turns a time value out of range into NaN.
\<close>

datatype jsdate = Date int | InvalidDate

datatype error = RequestError | RangeError | SyntaxError | Error string

definition msPerDay :: int where
  "msPerDay = 86400000"

definition TimeClip :: "int \<Rightarrow> jsdate" where
  "TimeClip t = (if \<bar>t\<bar> > 8640000000000000 then InvalidDate else Date t)"

text \<open>
  The time zone of the runner is the operation \<open>LocalTZA(t, isUTC)\<close> of the language
  standard: the offset of local time from UTC, in milliseconds, in force at the UTC time
  \<open>t\<close> (\<open>isUTC\<close> true) or at the local time \<open>t\<close> (\<open>isUTC\<close> false). With daylight
  saving the offset changes over the year.
\<close>

type_synonym zone = "int \<Rightarrow> bool \<Rightarrow> int"

definition LocalTime :: "zone \<Rightarrow> int \<Rightarrow> int" where
  "LocalTime tz t = t + tz t True"

definition UTC :: "zone \<Rightarrow> int \<Rightarrow> int" where
  "UTC tz t = t - tz t False"

definition Day :: "int \<Rightarrow> int" where
  "Day t = t div msPerDay"

definition TimeWithinDay :: "int \<Rightarrow> int" where
  "TimeWithinDay t = t mod msPerDay"

definition MakeDate :: "int \<Rightarrow> int \<Rightarrow> int" where
  "MakeDate day time = day * msPerDay + time"

text \<open>
  \<open>d.setDate(d.getDate() - n)\<close>, where \<open>n\<close> is the result of \<open>parseInt\<close>: an integer, or
  NaN (\<open>None\<close>). \<open>setDate\<close> works on the local calendar: it takes the local time of
  \<open>d\<close>, keeps the year, the month and the time within the day, and sets the day of the
  month. \<open>getDate\<close> and \<open>setDate\<close> count the day from the first of that month, so the
  local day number goes from \<open>Day\<close> to \<open>Day - n\<close>. The local time made of it is turned
  back into UTC with the offset in force at that local time, and clipped. A NaN day or a
  result out of range gives an invalid date.
\<close>

fun setDate_back :: "zone \<Rightarrow> jsdate \<Rightarrow> int option \<Rightarrow> jsdate" where
  "setDate_back tz InvalidDate n = InvalidDate"
| "setDate_back tz (Date t) None = InvalidDate"
| "setDate_back tz (Date t) (Some n) =
     TimeClip (UTC tz (MakeDate (Day (LocalTime tz t) - n) (TimeWithinDay (LocalTime tz t))))"

text \<open>\<open>a < b\<close> on two dates compares the time values; a comparison with NaN is false.\<close>

fun date_less :: "jsdate \<Rightarrow> jsdate \<Rightarrow> bool" where
  "date_less (Date a) (Date b) = (a < b)"
| "date_less _ _ = False"

section \<open>The collaborators\<close>

text \<open>
  The answers of the REST client, the clock, the time zone and the regular-expression
  engine. A request either returns its data or throws. Branch objects are kept by their
  \<open>name\<close>, the only field the action reads; the commit of a branch by the date of its
  author, already parsed by \<open>new Date\<close>.
\<close>

record world =
  repos_get :: "error + string"
  repos_listBranches :: "nat \<Rightarrow> error + string list"
  repos_getBranch :: "string \<Rightarrow> error + jsdate"
  git_deleteRef :: "string \<Rightarrow> error + unit"
  clock :: int
  LocalTZA :: zone
  RegExp :: "string \<Rightarrow> error + (string \<Rightarrow> bool)"

text \<open>What the action does to its collaborators, in the order it does it.\<close>

datatype json = JNames "string list" | JSkipped "(string \<times> string) list"

datatype call =
    ReposGet
  | ListBranches nat
  | GetBranch string
  | DeleteRef string
  | SetOutput string json
  | SetFailed

section \<open>The action\<close>

text \<open>
  The fields of a \<open>BranchCleanup\<close> instance, and the calls issued so far. The constructor
  receives the inputs as the source parses them: \<open>parseInt\<close> of \<open>days-old\<close>, the comparison
  of \<open>dry-run\<close> with \<open>'true'\<close>, the names of \<open>protected-branches\<close>, and the pattern text.
\<close>

record BranchCleanup =
  daysOld :: "int option"
  dryRun :: bool
  protectedBranches :: "string list"
  excludePattern :: string
  deletedBranches :: "string list"
  skippedBranches :: "(string \<times> string) list"
  calls :: "call list"

definition constructor :: "int option \<Rightarrow> bool \<Rightarrow> string list \<Rightarrow> string \<Rightarrow> BranchCleanup" where
  "constructor days dry names pattern =
     \<lparr>daysOld = days, dryRun = dry, protectedBranches = names, excludePattern = pattern,
      deletedBranches = [], skippedBranches = [], calls = []\<rparr>"

definition issue :: "call \<Rightarrow> BranchCleanup \<Rightarrow> BranchCleanup" where
  "issue c this = this\<lparr>calls := calls this @ [c]\<rparr>"

definition isProtected :: "BranchCleanup \<Rightarrow> string \<Rightarrow> bool" where
  "isProtected this branchName = (branchName \<in> set (protectedBranches this))"

definition matchesExcludePattern :: "world \<Rightarrow> BranchCleanup \<Rightarrow> string \<Rightarrow> bool" where
  "matchesExcludePattern w this branchName =
     (if excludePattern this = [] then False
      else case RegExp w (excludePattern this) of
             Inr regex \<Rightarrow> regex branchName
           | Inl e \<Rightarrow> False)"

definition addSkippedBranch :: "BranchCleanup \<Rightarrow> string \<Rightarrow> string \<Rightarrow> BranchCleanup" where
  "addSkippedBranch this branchName reason =
     this\<lparr>skippedBranches := skippedBranches this @ [(branchName, reason)]\<rparr>"

definition pushDeleted :: "BranchCleanup \<Rightarrow> string \<Rightarrow> BranchCleanup" where
  "pushDeleted this branchName =
     this\<lparr>deletedBranches := deletedBranches this @ [branchName]\<rparr>"

definition getDefaultBranch :: "world \<Rightarrow> BranchCleanup \<Rightarrow> (error + string) \<times> BranchCleanup" where
  "getDefaultBranch w this =
     (case repos_get w of
        Inr default_branch \<Rightarrow> (Inr default_branch, issue ReposGet this)
      | Inl e \<Rightarrow> (Inl (Error ''Failed to get default branch''), issue ReposGet this))"

definition perPage :: nat where
  "perPage = 100"

text \<open>
  The loop of \<open>getAllBranches\<close>: \<open>while (true)\<close>, left by a \<open>break\<close> or by an exception.
  Nothing bounds the number of pages, so the loop need not return.
\<close>

partial_function (option) getAllBranches_loop ::
  "world \<Rightarrow> nat \<Rightarrow> string list \<Rightarrow> BranchCleanup \<Rightarrow> ((error + string list) \<times> BranchCleanup) option"
where
  "getAllBranches_loop w page branches this =
     (case repos_listBranches w page of
        Inl e \<Rightarrow> Some (Inl e, issue (ListBranches page) this)
      | Inr data \<Rightarrow>
          if length data = 0 then Some (Inr branches, issue (ListBranches page) this)
          else if length data < perPage
            then Some (Inr (branches @ data), issue (ListBranches page) this)
          else getAllBranches_loop w (page + 1) (branches @ data) (issue (ListBranches page) this))"

declare getAllBranches_loop.simps [code]

definition getAllBranches ::
  "world \<Rightarrow> BranchCleanup \<Rightarrow> ((error + string list) \<times> BranchCleanup) option" where
  "getAllBranches w this =
     (case getAllBranches_loop w 1 [] this of
        None \<Rightarrow> None
      | Some (Inr branches, this') \<Rightarrow> Some (Inr branches, this')
      | Some (Inl e, this') \<Rightarrow> Some (Inl (Error ''Failed to fetch branches''), this'))"

definition getBranchLastCommitDate ::
  "world \<Rightarrow> BranchCleanup \<Rightarrow> string \<Rightarrow> (error + jsdate) \<times> BranchCleanup" where
  "getBranchLastCommitDate w this branchName =
     (case repos_getBranch w branchName of
        Inr date \<Rightarrow> (Inr date, issue (GetBranch branchName) this)
      | Inl e \<Rightarrow> (Inl (Error ''Failed to get last commit date for branch''),
                  issue (GetBranch branchName) this))"

definition deleteBranch :: "world \<Rightarrow> BranchCleanup \<Rightarrow> string \<Rightarrow> bool \<times> BranchCleanup" where
  "deleteBranch w this branchName =
     (case git_deleteRef w (''heads/'' @ branchName) of
        Inr u \<Rightarrow> (True, issue (DeleteRef (''heads/'' @ branchName)) this)
      | Inl e \<Rightarrow> (False, issue (DeleteRef (''heads/'' @ branchName)) this))"

text \<open>
  \<open>formatDate\<close> builds a text for the log from \<open>toISOString\<close>, which throws a
  \<open>RangeError\<close> on an invalid date. The log is not part of the model: what is kept of the
  call is whether it throws.
\<close>

fun formatDate :: "jsdate \<Rightarrow> error + unit" where
  "formatDate (Date t) = Inr ()"
| "formatDate InvalidDate = Inl RangeError"

text \<open>The \<open>try\<close> block of the loop body of \<open>run\<close>.\<close>

definition examine ::
  "world \<Rightarrow> jsdate \<Rightarrow> string \<Rightarrow> BranchCleanup \<Rightarrow> (error + unit) \<times> BranchCleanup" where
  "examine w cutoffDate branchName this =
     (case getBranchLastCommitDate w this branchName of
        (Inl e, this1) \<Rightarrow> (Inl e, this1)
      | (Inr lastCommitDate, this1) \<Rightarrow>
          (case formatDate lastCommitDate of
             Inl e \<Rightarrow> (Inl e, this1)
           | Inr u \<Rightarrow>
               if date_less lastCommitDate cutoffDate then
                 (if dryRun this1 then (Inr (), pushDeleted this1 branchName)
                  else
                    (case deleteBranch w this1 branchName of
                       (deleted, this2) \<Rightarrow>
                         if deleted then (Inr (), pushDeleted this2 branchName)
                         else (Inr (), addSkippedBranch this2 branchName ''deletion_failed'')))
               else (Inr (), addSkippedBranch this1 branchName ''too_recent'')))"

text \<open>The body of the loop over \<open>branchesToProcess\<close>, and the loop.\<close>

definition process_branch :: "world \<Rightarrow> jsdate \<Rightarrow> string \<Rightarrow> BranchCleanup \<Rightarrow> BranchCleanup" where
  "process_branch w cutoffDate branchName this =
     (if isProtected this branchName then addSkippedBranch this branchName ''protected''
      else if matchesExcludePattern w this branchName
        then addSkippedBranch this branchName ''matches_exclude_pattern''
      else
        (case examine w cutoffDate branchName this of
           (Inr u, this') \<Rightarrow> this'
         | (Inl e, this') \<Rightarrow> addSkippedBranch this' branchName ''error_processing''))"

fun process_branches :: "world \<Rightarrow> jsdate \<Rightarrow> string list \<Rightarrow> BranchCleanup \<Rightarrow> BranchCleanup" where
  "process_branches w cutoffDate [] this = this"
| "process_branches w cutoffDate (branch # rest) this =
     process_branches w cutoffDate rest (process_branch w cutoffDate branch this)"

definition branchesToProcess :: "string list \<Rightarrow> string \<Rightarrow> string list" where
  "branchesToProcess allBranches defaultBranch =
     filter (\<lambda>branch. branch \<noteq> defaultBranch) allBranches"

definition addDefaultBranch :: "string \<Rightarrow> BranchCleanup \<Rightarrow> BranchCleanup" where
  "addDefaultBranch defaultBranch this =
     (if defaultBranch \<notin> set (protectedBranches this)
      then this\<lparr>protectedBranches := protectedBranches this @ [defaultBranch]\<rparr>
      else this)"

definition setOutputs :: "BranchCleanup \<Rightarrow> BranchCleanup" where
  "setOutputs this =
     issue (SetOutput ''skipped-branches'' (JSkipped (skippedBranches this)))
       (issue (SetOutput ''deleted-branches'' (JNames (deletedBranches this))) this)"

text \<open>
  The \<open>try\<close> block of \<open>run\<close>: it ends normally or with an exception, in the state reached
  by then, or it does not end (\<open>None\<close>).
\<close>

definition run_try :: "world \<Rightarrow> BranchCleanup \<Rightarrow> ((error + unit) \<times> BranchCleanup) option" where
  "run_try w this =
     (case getDefaultBranch w this of
        (Inl e, this1) \<Rightarrow> Some (Inl e, this1)
      | (Inr defaultBranch, this1) \<Rightarrow>
          (let this2 = addDefaultBranch defaultBranch this1;
               cutoffDate = setDate_back (LocalTZA w) (Date (clock w)) (daysOld this2)
           in case formatDate cutoffDate of
                Inl e \<Rightarrow> Some (Inl e, this2)
              | Inr u \<Rightarrow>
                  (case getAllBranches w this2 of
                     None \<Rightarrow> None
                   | Some (Inl e, this3) \<Rightarrow> Some (Inl e, this3)
                   | Some (Inr allBranches, this3) \<Rightarrow>
                       if length (branchesToProcess allBranches defaultBranch) = 0
                       then Some (Inr (), this3)
                       else Some (Inr (),
                         setOutputs
                           (process_branches w cutoffDate
                              (branchesToProcess allBranches defaultBranch) this3)))))"

definition run :: "world \<Rightarrow> BranchCleanup \<Rightarrow> BranchCleanup option" where
  "run w this =
     (case run_try w this of
        None \<Rightarrow> None
      | Some (Inr u, this') \<Rightarrow> Some this'
      | Some (Inl e, this') \<Rightarrow> Some (issue SetFailed this'))"

section \<open>Auxiliary notions\<close>

text \<open>
  The instance with an empty report and no calls: the fields that the loop only reads.
\<close>

definition fresh :: "BranchCleanup \<Rightarrow> BranchCleanup" where
  "fresh this = this\<lparr>deletedBranches := [], skippedBranches := [], calls := []\<rparr>"

text \<open>
  The instance when the loop starts: the default branch \<open>d\<close> is among the protected names
  and the pages \<open>ps\<close> of the listing have been requested.
\<close>

definition listed :: "string \<Rightarrow> nat list \<Rightarrow> BranchCleanup \<Rightarrow> BranchCleanup" where
  "listed d ps this =
     (addDefaultBranch d this)\<lparr>calls := calls this @ ReposGet # map ListBranches ps\<rparr>"

definition withDefault :: "string \<Rightarrow> string list \<Rightarrow> string list" where
  "withDefault d names = (if d \<in> set names then names else names @ [d])"

text \<open>The requests that change the repository.\<close>

fun is_DeleteRef :: "call \<Rightarrow> bool" where
  "is_DeleteRef (DeleteRef ref) = True"
| "is_DeleteRef k = False"

text \<open>The calls that set an output of the action.\<close>

fun is_SetOutput :: "call \<Rightarrow> bool" where
  "is_SetOutput (SetOutput name v) = True"
| "is_SetOutput k = False"

section \<open>Example repositories\<close>

text \<open>
  A repository with the default branch \<open>main\<close>, a branch whose last commit is 15 days old
  and a branch whose last commit is 13 days old; every deletion succeeds. The runner is
  in UTC, as in the other examples but \<open>new_york\<close>.
\<close>

definition small :: world where
  "small = \<lparr>repos_get = Inr ''main'',
     repos_listBranches = (\<lambda>page. if page = 1
        then Inr [''main'', ''feature/a'', ''release/1.0'']
        else Inr []),
     repos_getBranch = (\<lambda>b.
        if b = ''feature/a'' then Inr (Date (1700000000000 - 15 * 86400000))
        else Inr (Date (1700000000000 - 13 * 86400000))),
     git_deleteRef = (\<lambda>ref. Inr ()),
     clock = 1700000000000,
     LocalTZA = (\<lambda>t isUTC. 0),
     RegExp = (\<lambda>p. Inl SyntaxError)\<rparr>"

text \<open>The instance after the live run on \<open>small\<close> with a threshold of 14 days.\<close>

definition small_live :: BranchCleanup where
  "small_live =
     \<lparr>daysOld = Some 14, dryRun = False, protectedBranches = [''main''],
      excludePattern = [],
      deletedBranches = [''feature/a''],
      skippedBranches = [(''release/1.0'', ''too_recent'')],
      calls = [ReposGet, ListBranches 1, GetBranch ''feature/a'', DeleteRef ''heads/feature/a'',
        GetBranch ''release/1.0'',
        SetOutput ''deleted-branches'' (JNames [''feature/a'']),
        SetOutput ''skipped-branches'' (JSkipped [(''release/1.0'', ''too_recent'')])]\<rparr>"

text \<open>The instance after the dry run on \<open>small\<close>.\<close>

definition small_dry :: BranchCleanup where
  "small_dry =
     \<lparr>daysOld = Some 14, dryRun = True, protectedBranches = [''main''],
      excludePattern = [],
      deletedBranches = [''feature/a''],
      skippedBranches = [(''release/1.0'', ''too_recent'')],
      calls = [ReposGet, ListBranches 1, GetBranch ''feature/a'', GetBranch ''release/1.0'',
        SetOutput ''deleted-branches'' (JNames [''feature/a'']),
        SetOutput ''skipped-branches'' (JSkipped [(''release/1.0'', ''too_recent'')])]\<rparr>"

text \<open>
  A repository on a runner in New York, with the clock on 14 November 2023: daylight saving
  ended on 5 November at 06:00 UTC, which is 02:00 local time. The cutoff of 14 days is on
  31 October at the same local time of day, an hour less than 14 days before the clock
  reading. The last commit of \<open>fix/dst\<close> lies within that hour.
\<close>

definition new_york :: world where
  "new_york = \<lparr>repos_get = Inr ''main'',
     repos_listBranches = (\<lambda>page. if page = 1
        then Inr [''main'', ''feature/a'', ''release/1.0'', ''fix/dst'']
        else Inr []),
     repos_getBranch = (\<lambda>b.
        if b = ''feature/a'' then Inr (Date (1700000000000 - 15 * 86400000))
        else if b = ''release/1.0'' then Inr (Date (1700000000000 - 13 * 86400000))
        else Inr (Date 1698788600000)),
     git_deleteRef = (\<lambda>ref. Inr ()),
     clock = 1700000000000,
     LocalTZA = (\<lambda>t isUTC.
        if isUTC then (if t < 1699164000000 then - 14400000 else - 18000000)
        else (if t < 1699149600000 then - 14400000 else - 18000000)),
     RegExp = (\<lambda>p. Inl SyntaxError)\<rparr>"

text \<open>A repository whose only branch is its default branch.\<close>

definition only_default :: world where
  "only_default = \<lparr>repos_get = Inr ''main'',
     repos_listBranches = (\<lambda>page. if page = 1 then Inr [''main''] else Inr []),
     repos_getBranch = (\<lambda>b. Inr (Date 0)),
     git_deleteRef = (\<lambda>ref. Inr ()),
     clock = 1700000000000,
     LocalTZA = (\<lambda>t isUTC. 0),
     RegExp = (\<lambda>p. Inl SyntaxError)\<rparr>"

text \<open>
  A repository with a protected branch and a branch under \<open>tmp/\<close>, whose every request
  about a single branch fails. The only pattern its engine compiles is \<open>^tmp/\<close>.
\<close>

definition guarded :: world where
  "guarded = \<lparr>repos_get = Inr ''main'',
     repos_listBranches = (\<lambda>page. if page = 1 then Inr [''main'', ''develop'', ''tmp/x''] else Inr []),
     repos_getBranch = (\<lambda>b. Inl RequestError),
     git_deleteRef = (\<lambda>ref. Inl RequestError),
     clock = 1700000000000,
     LocalTZA = (\<lambda>t isUTC. 0),
     RegExp = (\<lambda>p. if p = ''^tmp/'' then Inr (\<lambda>s. take 4 s = ''tmp/'') else Inl SyntaxError)\<rparr>"

text \<open>The instance after the live run on \<open>guarded\<close> with the pattern \<open>^tmp/\<close>.\<close>

definition guarded_report :: BranchCleanup where
  "guarded_report =
     \<lparr>daysOld = Some 14, dryRun = False, protectedBranches = [''develop'', ''main''],
      excludePattern = ''^tmp/'',
      deletedBranches = [],
      skippedBranches = [(''develop'', ''protected''), (''tmp/x'', ''matches_exclude_pattern'')],
      calls = [ReposGet, ListBranches 1,
        SetOutput ''deleted-branches'' (JNames []),
        SetOutput ''skipped-branches'' (JSkipped [(''develop'', ''protected''),
          (''tmp/x'', ''matches_exclude_pattern'')])]\<rparr>"

text \<open>
  A repository where the commit of \<open>gone\<close> cannot be fetched and \<open>locked\<close> cannot be
  deleted, and the same repository with the first fault repaired.
\<close>

definition faulty :: world where
  "faulty = \<lparr>repos_get = Inr ''main'',
     repos_listBranches = (\<lambda>page. if page = 1
        then Inr [''main'', ''gone'', ''locked'', ''feature/a''] else Inr []),
     repos_getBranch = (\<lambda>b. if b = ''gone'' then Inl RequestError else Inr (Date 0)),
     git_deleteRef = (\<lambda>ref. if ref = ''heads/locked'' then Inl RequestError else Inr ()),
     clock = 1700000000000,
     LocalTZA = (\<lambda>t isUTC. 0),
     RegExp = (\<lambda>p. Inl SyntaxError)\<rparr>"

text \<open>The instance after the live run on \<open>faulty\<close>.\<close>

definition faulty_report :: BranchCleanup where
  "faulty_report =
     \<lparr>daysOld = Some 14, dryRun = False, protectedBranches = [''main''],
      excludePattern = [],
      deletedBranches = [''feature/a''],
      skippedBranches = [(''gone'', ''error_processing''), (''locked'', ''deletion_failed'')],
      calls = [ReposGet, ListBranches 1, GetBranch ''gone'', GetBranch ''locked'',
        DeleteRef ''heads/locked'', GetBranch ''feature/a'', DeleteRef ''heads/feature/a'',
        SetOutput ''deleted-branches'' (JNames [''feature/a'']),
        SetOutput ''skipped-branches'' (JSkipped [(''gone'', ''error_processing''),
          (''locked'', ''deletion_failed'')])]\<rparr>"

definition repaired :: world where
  "repaired = faulty\<lparr>repos_getBranch := (\<lambda>b. Inr (Date 0))\<rparr>"

section \<open>The loop over the branches\<close>

lemmas update_defs = issue_def addSkippedBranch_def pushDeleted_def

lemmas process_branch_unfold =
  process_branch_def examine_def getBranchLastCommitDate_def deleteBranch_def
  isProtected_def matchesExcludePattern_def

lemma process_branch_config:
  "daysOld (process_branch w c b this) = daysOld this"
  "dryRun (process_branch w c b this) = dryRun this"
  "protectedBranches (process_branch w c b this) = protectedBranches this"
  "excludePattern (process_branch w c b this) = excludePattern this"
  by (simp_all add: process_branch_unfold update_defs split: sum.splits jsdate.splits)

lemma fresh_process_branch: "fresh (process_branch w c b this) = fresh (this::BranchCleanup)"
  by (simp add: process_branch_unfold update_defs fresh_def split: sum.splits jsdate.splits)

lemma process_branch_append:
  "deletedBranches (process_branch w c b this) =
     deletedBranches this @ deletedBranches (process_branch w c b (fresh this))"
  "skippedBranches (process_branch w c b this) =
     skippedBranches this @ skippedBranches (process_branch w c b (fresh this))"
  "calls (process_branch w c b this) =
     calls this @ calls (process_branch w c b (fresh this))"
  by (simp_all add: process_branch_unfold update_defs fresh_def split: sum.splits jsdate.splits)

lemma fresh_process_branches: "fresh (process_branches w c bs this) = fresh this"
  by (induction bs arbitrary: this) (simp_all add: fresh_process_branch)

lemma process_branches_config:
  "daysOld (process_branches w c bs this) = daysOld this"
  "dryRun (process_branches w c bs this) = dryRun this"
  "protectedBranches (process_branches w c bs this) = protectedBranches this"
  "excludePattern (process_branches w c bs this) = excludePattern this"
  by (induction bs arbitrary: this) (simp_all add: process_branch_config)

lemma process_branches_deleted:
  "deletedBranches (process_branches w c bs this) =
     deletedBranches this @
     concat (map (\<lambda>b. deletedBranches (process_branch w c b (fresh this))) bs)"
proof (induction bs arbitrary: this)
  case Nil
  show ?case by simp
next
  case (Cons b bs)
  show ?case
    by (simp add: Cons.IH fresh_process_branch process_branch_append(1) [of w c b this])
qed

lemma process_branches_skipped:
  "skippedBranches (process_branches w c bs this) =
     skippedBranches this @
     concat (map (\<lambda>b. skippedBranches (process_branch w c b (fresh this))) bs)"
proof (induction bs arbitrary: this)
  case Nil
  show ?case by simp
next
  case (Cons b bs)
  show ?case
    by (simp add: Cons.IH fresh_process_branch process_branch_append(2) [of w c b this])
qed

lemma process_branches_calls:
  "calls (process_branches w c bs this) =
     calls this @
     concat (map (\<lambda>b. calls (process_branch w c b (fresh this))) bs)"
proof (induction bs arbitrary: this)
  case Nil
  show ?case by simp
next
  case (Cons b bs)
  show ?case
    by (simp add: Cons.IH fresh_process_branch process_branch_append(3) [of w c b this])
qed

section \<open>The listing\<close>

lemma getAllBranches_loop_transfer:
  assumes "getAllBranches_loop w page branches this = Some y"
  shows "\<exists>ps. snd y = this\<lparr>calls := calls this @ map ListBranches ps\<rparr> \<and>
     (\<forall>(w2::world) that. repos_listBranches w2 = repos_listBranches w \<longrightarrow>
        getAllBranches_loop w2 page branches that =
          Some (fst y, that\<lparr>calls := calls that @ map ListBranches ps\<rparr>))"
  using assms
proof (induct rule: getAllBranches_loop.raw_induct [rotated 1, consumes 1, case_names step])
  case (step loop w page branches this y)
  note IH = step(1) and body = step(2)
  show ?case
  proof (cases "repos_listBranches w page")
    case (Inl e)
    with body have y: "y = (Inl e, issue (ListBranches page) this)" by simp
    show ?thesis
      by (rule exI [of _ "[page]"]) (simp add: y issue_def Inl getAllBranches_loop.simps)
  next
    case (Inr data)
    consider "length data = 0" | "length data \<noteq> 0" "length data < perPage"
      | "length data \<noteq> 0" "\<not> length data < perPage" by blast
    then show ?thesis
    proof cases
      case 1
      with body Inr have y: "y = (Inr branches, issue (ListBranches page) this)" by simp
      show ?thesis
        by (rule exI [of _ "[page]"]) (simp add: y issue_def Inr 1 getAllBranches_loop.simps)
    next
      case 2
      with body Inr have y: "y = (Inr (branches @ data), issue (ListBranches page) this)" by simp
      show ?thesis
        by (rule exI [of _ "[page]"]) (use 2 in \<open>simp add: y issue_def Inr getAllBranches_loop.simps\<close>)
    next
      case 3
      with body Inr
      have "loop w (page + 1) (branches @ data) (issue (ListBranches page) this) = Some y"
        by simp
      from IH [OF this] obtain ps where
        ps: "snd y = (issue (ListBranches page) this)
               \<lparr>calls := calls (issue (ListBranches page) this) @ map ListBranches ps\<rparr>"
        and tr: "\<And>(w2::world) that. repos_listBranches w2 = repos_listBranches w \<Longrightarrow>
          getAllBranches_loop w2 (page + 1) (branches @ data) that =
            Some (fst y, that\<lparr>calls := calls that @ map ListBranches ps\<rparr>)"
        by blast
      show ?thesis
      proof (rule exI [of _ "page # ps"], intro conjI allI impI)
        show "snd y = this\<lparr>calls := calls this @ map ListBranches (page # ps)\<rparr>"
          by (simp add: ps issue_def)
      next
        fix w2 :: world and that
        assume eq: "repos_listBranches w2 = repos_listBranches w"
        have "getAllBranches_loop w2 page branches that =
              getAllBranches_loop w2 (page + 1) (branches @ data) (issue (ListBranches page) that)"
          by (subst getAllBranches_loop.simps) (use 3 in \<open>simp add: eq Inr\<close>)
        also have "\<dots> = Some (fst y, (issue (ListBranches page) that)
            \<lparr>calls := calls (issue (ListBranches page) that) @ map ListBranches ps\<rparr>)"
          by (rule tr [OF eq])
        finally show "getAllBranches_loop w2 page branches that =
            Some (fst y, that\<lparr>calls := calls that @ map ListBranches (page # ps)\<rparr>)"
          by (simp add: issue_def)
      qed
    qed
  qed
qed

lemma getAllBranches_transfer:
  assumes "getAllBranches w this = Some (r, this')"
  obtains ps where "this' = this\<lparr>calls := calls this @ map ListBranches ps\<rparr>"
    and "\<And>(w2::world) that. repos_listBranches w2 = repos_listBranches w \<Longrightarrow>
          getAllBranches w2 that = Some (r, that\<lparr>calls := calls that @ map ListBranches ps\<rparr>)"
proof -
  from assms obtain y where y: "getAllBranches_loop w 1 [] this = Some y"
    by (auto simp: getAllBranches_def split: option.splits)
  from getAllBranches_loop_transfer [OF y] obtain ps where
    ps: "snd y = this\<lparr>calls := calls this @ map ListBranches ps\<rparr>"
    and tr: "\<And>(w2::world) that. repos_listBranches w2 = repos_listBranches w \<Longrightarrow>
        getAllBranches_loop w2 1 [] that =
          Some (fst y, that\<lparr>calls := calls that @ map ListBranches ps\<rparr>)"
    by blast
  from assms y have r: "r = (case fst y of Inr bs \<Rightarrow> Inr bs | Inl e \<Rightarrow> Inl (Error ''Failed to fetch branches''))"
    and s: "this' = snd y"
    by (auto simp: getAllBranches_def split: sum.splits prod.splits)
  show thesis
  proof (rule that [of ps])
    show "this' = this\<lparr>calls := calls this @ map ListBranches ps\<rparr>" using s ps by simp
  next
    fix w2 :: world and that
    assume "repos_listBranches w2 = repos_listBranches w"
    from tr [OF this, of that]
    show "getAllBranches w2 that = Some (r, that\<lparr>calls := calls that @ map ListBranches ps\<rparr>)"
      by (simp add: getAllBranches_def r split: sum.splits)
  qed
qed

section \<open>The run, step by step\<close>

lemma listed_fields:
  "daysOld (listed d ps this) = daysOld this"
  "dryRun (listed d ps this) = dryRun this"
  "excludePattern (listed d ps this) = excludePattern this"
  "deletedBranches (listed d ps this) = deletedBranches this"
  "skippedBranches (listed d ps this) = skippedBranches this"
  "calls (listed d ps this) = calls this @ ReposGet # map ListBranches ps"
  "protectedBranches (listed d ps this) =
     (if d \<in> set (protectedBranches this) then protectedBranches this
      else protectedBranches this @ [d])"
  by (simp_all add: listed_def addDefaultBranch_def)

lemma listed_eq:
  "(addDefaultBranch d (issue ReposGet this))
     \<lparr>calls := calls (addDefaultBranch d (issue ReposGet this)) @ map ListBranches ps\<rparr> =
   listed d ps this"
  by (simp add: listed_def addDefaultBranch_def issue_def)

lemma run_listed:
  assumes d: "repos_get w = Inr d"
    and c: "setDate_back (LocalTZA w) (Date (clock w)) (daysOld this) = Date c"
    and l: "\<And>that. getAllBranches w that =
              Some (Inr allBranches, that\<lparr>calls := calls that @ map ListBranches ps\<rparr>)"
  shows "run w this =
     Some (if branchesToProcess allBranches d = [] then listed d ps this
           else setOutputs (process_branches w (Date c) (branchesToProcess allBranches d)
                  (listed d ps this)))"
proof -
  have c': "setDate_back (LocalTZA w) (Date (clock w)) (daysOld (addDefaultBranch d (issue ReposGet this))) = Date c"
    using c by (simp add: addDefaultBranch_def issue_def)
  show ?thesis
    by (simp add: run_def run_try_def getDefaultBranch_def d Let_def c' l listed_eq)
qed

lemma run_cases [consumes 1, case_names no_default no_cutoff no_listing no_branches processed]:
  assumes "run w this = Some this'"
  obtains
    e where "repos_get w = Inl e" "this' = issue SetFailed (issue ReposGet this)"
  | d where "repos_get w = Inr d"
      "setDate_back (LocalTZA w) (Date (clock w)) (daysOld this) = InvalidDate"
      "this' = issue SetFailed (addDefaultBranch d (issue ReposGet this))"
  | d c e ps where "repos_get w = Inr d"
      "setDate_back (LocalTZA w) (Date (clock w)) (daysOld this) = Date c"
      "\<And>that. getAllBranches w that =
              Some (Inl e, that\<lparr>calls := calls that @ map ListBranches ps\<rparr>)"
      "this' = issue SetFailed (listed d ps this)"
  | d c allBranches ps where "repos_get w = Inr d"
      "setDate_back (LocalTZA w) (Date (clock w)) (daysOld this) = Date c"
      "\<And>that. getAllBranches w that =
              Some (Inr allBranches, that\<lparr>calls := calls that @ map ListBranches ps\<rparr>)"
      "branchesToProcess allBranches d = []"
      "this' = listed d ps this"
  | d c allBranches ps where "repos_get w = Inr d"
      "setDate_back (LocalTZA w) (Date (clock w)) (daysOld this) = Date c"
      "\<And>that. getAllBranches w that =
              Some (Inr allBranches, that\<lparr>calls := calls that @ map ListBranches ps\<rparr>)"
      "branchesToProcess allBranches d \<noteq> []"
      "this' = setOutputs (process_branches w (Date c) (branchesToProcess allBranches d)
                  (listed d ps this))"
proof (cases "repos_get w")
  case (Inl e)
  with assms have "this' = issue SetFailed (issue ReposGet this)"
    by (simp add: run_def run_try_def getDefaultBranch_def)
  with Inl show thesis by (rule that(1))
next
  case (Inr d)
  let ?this2 = "addDefaultBranch d (issue ReposGet this)"
  have days: "daysOld ?this2 = daysOld this"
    by (simp add: addDefaultBranch_def issue_def)
  show thesis
  proof (cases "setDate_back (LocalTZA w) (Date (clock w)) (daysOld this)")
    case InvalidDate
    with assms Inr have "this' = issue SetFailed ?this2"
      by (simp add: run_def run_try_def getDefaultBranch_def Let_def days)
    with Inr InvalidDate show thesis by (rule that(2))
  next
    case (Date c)
    from assms Inr Date obtain r this3 where g: "getAllBranches w ?this2 = Some (r, this3)"
      by (auto simp: run_def run_try_def getDefaultBranch_def Let_def days split: option.splits)
    from getAllBranches_transfer [OF g] obtain ps where
      this3: "this3 = listed d ps this"
      and tr: "\<And>that. getAllBranches w that =
                 Some (r, that\<lparr>calls := calls that @ map ListBranches ps\<rparr>)"
      by (metis listed_eq)
    show thesis
    proof (cases r)
      case (Inl e)
      with assms Inr Date g this3 have "this' = issue SetFailed (listed d ps this)"
        by (simp add: run_def run_try_def getDefaultBranch_def Let_def days)
      with Inr Date tr [unfolded Inl] show thesis by (rule that(3))
    next
      case r: (Inr allBranches)
      from run_listed [OF Inr Date tr [unfolded r]] assms
      have eq: "this' = (if branchesToProcess allBranches d = [] then listed d ps this
           else setOutputs (process_branches w (Date c) (branchesToProcess allBranches d)
                  (listed d ps this)))"
        by simp
      show thesis
      proof (cases "branchesToProcess allBranches d = []")
        case True
        with eq have "this' = listed d ps this" by simp
        with Inr Date tr [unfolded r] True show thesis by (rule that(4))
      next
        case False
        with eq have "this' = setOutputs (process_branches w (Date c)
            (branchesToProcess allBranches d) (listed d ps this))" by simp
        with Inr Date tr [unfolded r] False show thesis by (rule that(5))
      qed
    qed
  qed
qed

section \<open>One branch\<close>

lemma fresh_fields:
  "daysOld (fresh this) = daysOld this"
  "dryRun (fresh this) = dryRun this"
  "protectedBranches (fresh this) = protectedBranches this"
  "excludePattern (fresh this) = excludePattern this"
  "deletedBranches (fresh this) = []"
  "skippedBranches (fresh this) = []"
  "calls (fresh this) = []"
  by (simp_all add: fresh_def)

lemma matchesExcludePattern_fresh:
  "matchesExcludePattern w (fresh this) b = matchesExcludePattern w this b"
  by (simp add: matchesExcludePattern_def fresh_def)

lemma fresh_listed_constructor:
  "fresh (listed d ps (constructor days dry names pattern)) =
     constructor days dry (if d \<in> set names then names else names @ [d]) pattern"
  by (simp add: fresh_def listed_def addDefaultBranch_def constructor_def)

lemma fresh_constructor: "fresh (constructor days dry names pattern) = constructor days dry names pattern"
  by (simp add: fresh_def constructor_def)

text \<open>What one branch adds to the report and to the calls, case by case.\<close>

lemma step_protected:
  assumes "b \<in> set (protectedBranches this)"
  shows "deletedBranches (process_branch w c b (fresh this)) = []"
    and "skippedBranches (process_branch w c b (fresh this)) = [(b, ''protected'')]"
    and "calls (process_branch w c b (fresh this)) = []"
  using assms by (simp_all add: process_branch_def isProtected_def addSkippedBranch_def fresh_def)

lemma step_excluded:
  assumes "b \<notin> set (protectedBranches this)" "matchesExcludePattern w this b"
  shows "deletedBranches (process_branch w c b (fresh this)) = []"
    and "skippedBranches (process_branch w c b (fresh this)) = [(b, ''matches_exclude_pattern'')]"
    and "calls (process_branch w c b (fresh this)) = []"
  using assms
  by (simp_all add: process_branch_def isProtected_def addSkippedBranch_def
      matchesExcludePattern_fresh fresh_fields)

lemma step_fetch_failed:
  assumes "b \<notin> set (protectedBranches this)" "\<not> matchesExcludePattern w this b"
    and "repos_getBranch w b = Inl e"
  shows "deletedBranches (process_branch w c b (fresh this)) = []"
    and "skippedBranches (process_branch w c b (fresh this)) = [(b, ''error_processing'')]"
    and "calls (process_branch w c b (fresh this)) = [GetBranch b]"
  using assms
  by (simp_all add: process_branch_def isProtected_def examine_def getBranchLastCommitDate_def
      update_defs matchesExcludePattern_fresh fresh_fields)

lemma step_invalid_date:
  assumes "b \<notin> set (protectedBranches this)" "\<not> matchesExcludePattern w this b"
    and "repos_getBranch w b = Inr InvalidDate"
  shows "deletedBranches (process_branch w c b (fresh this)) = []"
    and "skippedBranches (process_branch w c b (fresh this)) = [(b, ''error_processing'')]"
    and "calls (process_branch w c b (fresh this)) = [GetBranch b]"
  using assms
  by (simp_all add: process_branch_def isProtected_def examine_def getBranchLastCommitDate_def
      update_defs matchesExcludePattern_fresh fresh_fields)

lemma step_too_recent:
  assumes "b \<notin> set (protectedBranches this)" "\<not> matchesExcludePattern w this b"
    and "repos_getBranch w b = Inr (Date t)" "\<not> date_less (Date t) c"
  shows "deletedBranches (process_branch w c b (fresh this)) = []"
    and "skippedBranches (process_branch w c b (fresh this)) = [(b, ''too_recent'')]"
    and "calls (process_branch w c b (fresh this)) = [GetBranch b]"
  using assms
  by (simp_all add: process_branch_def isProtected_def examine_def getBranchLastCommitDate_def
      update_defs matchesExcludePattern_fresh fresh_fields)

lemma step_dry_run:
  assumes "b \<notin> set (protectedBranches this)" "\<not> matchesExcludePattern w this b"
    and "repos_getBranch w b = Inr (Date t)" "date_less (Date t) c" "dryRun this"
  shows "deletedBranches (process_branch w c b (fresh this)) = [b]"
    and "skippedBranches (process_branch w c b (fresh this)) = []"
    and "calls (process_branch w c b (fresh this)) = [GetBranch b]"
  using assms
  by (simp_all add: process_branch_def isProtected_def examine_def getBranchLastCommitDate_def
      update_defs matchesExcludePattern_fresh fresh_fields)

lemma step_deleted:
  assumes "b \<notin> set (protectedBranches this)" "\<not> matchesExcludePattern w this b"
    and "repos_getBranch w b = Inr (Date t)" "date_less (Date t) c" "\<not> dryRun this"
    and "git_deleteRef w (''heads/'' @ b) = Inr u"
  shows "deletedBranches (process_branch w c b (fresh this)) = [b]"
    and "skippedBranches (process_branch w c b (fresh this)) = []"
    and "calls (process_branch w c b (fresh this)) = [GetBranch b, DeleteRef (''heads/'' @ b)]"
  using assms
  by (simp_all add: process_branch_def isProtected_def examine_def getBranchLastCommitDate_def
      deleteBranch_def update_defs matchesExcludePattern_fresh fresh_fields)

lemma step_deletion_failed:
  assumes "b \<notin> set (protectedBranches this)" "\<not> matchesExcludePattern w this b"
    and "repos_getBranch w b = Inr (Date t)" "date_less (Date t) c" "\<not> dryRun this"
    and "git_deleteRef w (''heads/'' @ b) = Inl e"
  shows "deletedBranches (process_branch w c b (fresh this)) = []"
    and "skippedBranches (process_branch w c b (fresh this)) = [(b, ''deletion_failed'')]"
    and "calls (process_branch w c b (fresh this)) = [GetBranch b, DeleteRef (''heads/'' @ b)]"
  using assms
  by (simp_all add: process_branch_def isProtected_def examine_def getBranchLastCommitDate_def
      deleteBranch_def update_defs matchesExcludePattern_fresh fresh_fields)

lemma step_cases [case_names protected excluded fetch_failed invalid_date too_recent
    dry_run deleted deletion_failed]:
  obtains "b \<in> set (protectedBranches this)"
  | "b \<notin> set (protectedBranches this)" "matchesExcludePattern w this b"
  | e where "b \<notin> set (protectedBranches this)" "\<not> matchesExcludePattern w this b"
      "repos_getBranch w b = Inl e"
  | "b \<notin> set (protectedBranches this)" "\<not> matchesExcludePattern w this b"
      "repos_getBranch w b = Inr InvalidDate"
  | t where "b \<notin> set (protectedBranches this)" "\<not> matchesExcludePattern w this b"
      "repos_getBranch w b = Inr (Date t)" "\<not> date_less (Date t) c"
  | t where "b \<notin> set (protectedBranches this)" "\<not> matchesExcludePattern w this b"
      "repos_getBranch w b = Inr (Date t)" "date_less (Date t) c" "dryRun this"
  | t where "b \<notin> set (protectedBranches this)" "\<not> matchesExcludePattern w this b"
      "repos_getBranch w b = Inr (Date t)" "date_less (Date t) c" "\<not> dryRun this"
      "git_deleteRef w (''heads/'' @ b) = Inr ()"
  | t e where "b \<notin> set (protectedBranches this)" "\<not> matchesExcludePattern w this b"
      "repos_getBranch w b = Inr (Date t)" "date_less (Date t) c" "\<not> dryRun this"
      "git_deleteRef w (''heads/'' @ b) = Inl e"
proof (cases "repos_getBranch w b")
  case (Inl e)
  then show thesis using that(1,2,3) by blast
next
  case (Inr date)
  show thesis
  proof (cases date)
    case InvalidDate
    with Inr show thesis using that(1,2,4) by blast
  next
    case (Date t)
    show thesis
    proof (cases "git_deleteRef w (''heads/'' @ b)")
      case (Inl e)
      with Inr Date show thesis using that(1,2,5,6,8) by blast
    next
      case r: (Inr u)
      with Inr Date show thesis using that(1,2,5,6,7) by (cases u) blast
    qed
  qed
qed

lemma step_names:
  "x \<in> set (deletedBranches (process_branch w c b (fresh this))) \<Longrightarrow> x = b"
  "(n, r) \<in> set (skippedBranches (process_branch w c b (fresh this))) \<Longrightarrow> n = b"
  "k \<in> set (calls (process_branch w c b (fresh this))) \<Longrightarrow>
     k = GetBranch b \<or> k = DeleteRef (''heads/'' @ b)"
  by (cases rule: step_cases [where b = b and this = this and w = w and c = c];
      simp add: step_protected step_excluded step_fetch_failed step_invalid_date
        step_too_recent step_dry_run step_deleted step_deletion_failed)+

lemma step_count:
  "count_list (deletedBranches (process_branch w c b (fresh this))) x +
   count_list (map fst (skippedBranches (process_branch w c b (fresh this)))) x =
   (if x = b then 1 else 0)"
  by (cases rule: step_cases [where b = b and this = this and w = w and c = c];
      simp add: step_protected step_excluded step_fetch_failed step_invalid_date
        step_too_recent step_dry_run step_deleted step_deletion_failed)

section \<open>The report of a run\<close>

lemma fresh_listed: 
  "fresh (listed d ps (constructor days dry names pattern)) =
     constructor days dry (withDefault d names) pattern"
  by (simp add: fresh_listed_constructor withDefault_def)

lemma constructor_fields:
  "daysOld (constructor days dry names pattern) = days"
  "dryRun (constructor days dry names pattern) = dry"
  "protectedBranches (constructor days dry names pattern) = names"
  "excludePattern (constructor days dry names pattern) = pattern"
  "deletedBranches (constructor days dry names pattern) = []"
  "skippedBranches (constructor days dry names pattern) = []"
  "calls (constructor days dry names pattern) = []"
  by (simp_all add: constructor_def)

lemma setOutputs_fields:
  "daysOld (setOutputs this) = daysOld this"
  "dryRun (setOutputs this) = dryRun this"
  "protectedBranches (setOutputs this) = protectedBranches this"
  "excludePattern (setOutputs this) = excludePattern this"
  "deletedBranches (setOutputs this) = deletedBranches this"
  "skippedBranches (setOutputs this) = skippedBranches this"
  "calls (setOutputs this) = calls this @
     [SetOutput ''deleted-branches'' (JNames (deletedBranches this)),
      SetOutput ''skipped-branches'' (JSkipped (skippedBranches this))]"
  by (simp_all add: setOutputs_def issue_def)

text \<open>The result of a run that got as far as the loop, from the branches one by one.\<close>

lemma processed_fields:
  fixes w c d ps days dry names pattern bs
  defines "K \<equiv> constructor days dry (withDefault d names) pattern"
  defines "this' \<equiv> process_branches w c bs (listed d ps (constructor days dry names pattern))"
  shows "deletedBranches this' = concat (map (\<lambda>b. deletedBranches (process_branch w c b (fresh K))) bs)"
    and "skippedBranches this' = concat (map (\<lambda>b. skippedBranches (process_branch w c b (fresh K))) bs)"
    and "calls this' = ReposGet # map ListBranches ps @
           concat (map (\<lambda>b. calls (process_branch w c b (fresh K))) bs)"
    and "protectedBranches this' = withDefault d names"
    and "daysOld this' = days" and "dryRun this' = dry" and "excludePattern this' = pattern"
proof -
  have K: "fresh (listed d ps (constructor days dry names pattern)) = fresh K"
    by (simp add: K_def fresh_listed fresh_constructor)
  show "deletedBranches this' = concat (map (\<lambda>b. deletedBranches (process_branch w c b (fresh K))) bs)"
    by (simp add: this'_def process_branches_deleted K listed_fields constructor_fields)
  show "skippedBranches this' = concat (map (\<lambda>b. skippedBranches (process_branch w c b (fresh K))) bs)"
    by (simp add: this'_def process_branches_skipped K listed_fields constructor_fields)
  show "calls this' = ReposGet # map ListBranches ps @
           concat (map (\<lambda>b. calls (process_branch w c b (fresh K))) bs)"
    by (simp add: this'_def process_branches_calls K listed_fields constructor_fields)
  show "protectedBranches this' = withDefault d names"
    by (simp add: this'_def process_branches_config listed_fields constructor_fields withDefault_def)
  show "daysOld this' = days" "dryRun this' = dry" "excludePattern this' = pattern"
    by (simp_all add: this'_def process_branches_config listed_fields constructor_fields)
qed

lemma run_report [consumes 2]:
  fixes days dry names pattern
  assumes "run w (constructor days dry names pattern) = Some this'"
    and "SetFailed \<notin> set (calls this')"
  obtains d c allBranches ps where
    "repos_get w = Inr d"
    "setDate_back (LocalTZA w) (Date (clock w)) days = Date c"
    "\<And>that. getAllBranches w that =
        Some (Inr allBranches, that\<lparr>calls := calls that @ map ListBranches ps\<rparr>)"
    "deletedBranches this' =
       concat (map (\<lambda>b. deletedBranches (process_branch w (Date c) b
         (fresh (constructor days dry (withDefault d names) pattern))))
         (branchesToProcess allBranches d))"
    "skippedBranches this' =
       concat (map (\<lambda>b. skippedBranches (process_branch w (Date c) b
         (fresh (constructor days dry (withDefault d names) pattern))))
         (branchesToProcess allBranches d))"
    "calls this' = ReposGet # map ListBranches ps @
       concat (map (\<lambda>b. calls (process_branch w (Date c) b
         (fresh (constructor days dry (withDefault d names) pattern))))
         (branchesToProcess allBranches d)) @
       (if branchesToProcess allBranches d = [] then []
        else [SetOutput ''deleted-branches'' (JNames (deletedBranches this')),
              SetOutput ''skipped-branches'' (JSkipped (skippedBranches this'))])"
    "protectedBranches this' = withDefault d names"
  using assms(1)
proof (cases rule: run_cases)
  case (no_default e)
  with assms(2) show ?thesis by (simp add: issue_def)
next
  case (no_cutoff d)
  with assms(2) show ?thesis by (simp add: issue_def)
next
  case (no_listing d c e ps)
  with assms(2) show ?thesis by (simp add: issue_def)
next
  case (no_branches d c allBranches ps)
  show ?thesis
  proof (rule that [of d c allBranches ps])
    show "repos_get w = Inr d" by fact
    show "setDate_back (LocalTZA w) (Date (clock w)) days = Date c"
      using no_branches(2) by (simp add: constructor_fields)
    show "getAllBranches w that =
        Some (Inr allBranches, that\<lparr>calls := calls that @ map ListBranches ps\<rparr>)" for that
      by fact
  qed (simp_all add: no_branches(4,5) listed_fields constructor_fields withDefault_def)
next
  case (processed d c allBranches ps)
  show ?thesis
  proof (rule that [of d c allBranches ps])
    show "repos_get w = Inr d" by fact
    show "setDate_back (LocalTZA w) (Date (clock w)) days = Date c"
      using processed(2) by (simp add: constructor_fields)
    show "getAllBranches w that =
        Some (Inr allBranches, that\<lparr>calls := calls that @ map ListBranches ps\<rparr>)" for that
      by fact
  qed (simp_all add: processed(4,5) setOutputs_fields processed_fields)
qed

lemma step_no_SetFailed: "SetFailed \<notin> set (calls (process_branch w c b (fresh this)))"
  using step_names(3) [of SetFailed w c b this] by auto

lemma getAllBranches_any:
  assumes "getAllBranches w this = Some (r, this')"
  obtains ps where
    "\<And>that. getAllBranches w that = Some (r, that\<lparr>calls := calls that @ map ListBranches ps\<rparr>)"
proof (rule getAllBranches_transfer [OF assms])
  fix ps
  assume tr: "\<And>(w2::world) that. repos_listBranches w2 = repos_listBranches w \<Longrightarrow>
          getAllBranches w2 that = Some (r, that\<lparr>calls := calls that @ map ListBranches ps\<rparr>)"
  show thesis by (rule that [of ps]) (rule tr, rule refl)
qed

text \<open>The run returns, without a failure, when the three steps before the loop succeed.\<close>

lemma run_completes:
  fixes days dry names pattern
  assumes d: "repos_get w = Inr d"
    and c: "setDate_back (LocalTZA w) (Date (clock w)) days = Date c"
    and l: "getAllBranches w that = Some (Inr allBranches, that')"
  obtains this' where "run w (constructor days dry names pattern) = Some this'"
    and "SetFailed \<notin> set (calls this')"
proof -
  from l obtain ps where
    tr: "\<And>that. getAllBranches w that =
           Some (Inr allBranches, that\<lparr>calls := calls that @ map ListBranches ps\<rparr>)"
    by (rule getAllBranches_any) blast
  have c': "setDate_back (LocalTZA w) (Date (clock w)) (daysOld (constructor days dry names pattern)) = Date c"
    using c by (simp add: constructor_fields)
  note r = run_listed [OF d c' tr]
  show thesis
  proof (cases "branchesToProcess allBranches d = []")
    case True
    with r have "run w (constructor days dry names pattern) =
        Some (listed d ps (constructor days dry names pattern))" by simp
    moreover have "SetFailed \<notin> set (calls (listed d ps (constructor days dry names pattern)))"
      by (auto simp: listed_fields constructor_fields)
    ultimately show thesis by (rule that)
  next
    case False
    let ?s = "process_branches w (Date c) (branchesToProcess allBranches d)
               (listed d ps (constructor days dry names pattern))"
    from False r have "run w (constructor days dry names pattern) = Some (setOutputs ?s)" by simp
    moreover have "SetFailed \<notin> set (calls ?s)"
      unfolding processed_fields(3) using step_no_SetFailed by auto
    then have "SetFailed \<notin> set (calls (setOutputs ?s))"
      by (simp add: setOutputs_fields(7))
    ultimately show thesis by (rule that)
  qed
qed

lemma count_list_distinct: "distinct xs \<Longrightarrow> x \<in> set xs \<Longrightarrow> count_list xs x = 1"
  by (induction xs) auto

lemma report_count:
  "count_list (concat (map (\<lambda>b. deletedBranches (process_branch w c b (fresh K))) bs)) x +
   count_list (map fst (concat (map (\<lambda>b. skippedBranches (process_branch w c b (fresh K))) bs))) x =
   count_list bs x"
proof (induction bs)
  case Nil
  show ?case by simp
next
  case (Cons b bs)
  from step_count [of w c b K x] Cons.IH show ?case
    by (simp add: map_concat split: if_splits)
qed

lemma in_report_deleted:
  "x \<in> set (concat (map (\<lambda>b. deletedBranches (process_branch w c b (fresh K))) bs)) \<longleftrightarrow>
   x \<in> set bs \<and> x \<in> set (deletedBranches (process_branch w c x (fresh K)))"
  using step_names(1) [of x w c _ K] by auto

lemma in_report_skipped:
  "(x, r) \<in> set (concat (map (\<lambda>b. skippedBranches (process_branch w c b (fresh K))) bs)) \<longleftrightarrow>
   x \<in> set bs \<and> (x, r) \<in> set (skippedBranches (process_branch w c x (fresh K)))"
  using step_names(2) [of x r w c _ K] by auto

lemma in_report_GetBranch:
  "GetBranch x \<in> set (concat (map (\<lambda>b. calls (process_branch w c b (fresh K))) bs)) \<longleftrightarrow>
   x \<in> set bs \<and> GetBranch x \<in> set (calls (process_branch w c x (fresh K)))"
  using step_names(3) [of "GetBranch x" w c _ K] by auto

lemma in_report_DeleteRef:
  "DeleteRef (''heads/'' @ x) \<in> set (concat (map (\<lambda>b. calls (process_branch w c b (fresh K))) bs)) \<longleftrightarrow>
   x \<in> set bs \<and> DeleteRef (''heads/'' @ x) \<in> set (calls (process_branch w c x (fresh K)))"
  using step_names(3) [of "DeleteRef (''heads/'' @ x)" w c _ K] by auto

text \<open>The runs on the example repositories, evaluated.\<close>

lemmas run_defs = run_def run_try_def constructor_def getDefaultBranch_def
  issue_def addDefaultBranch_def msPerDay_def TimeClip_def LocalTime_def UTC_def Day_def
  TimeWithinDay_def MakeDate_def getAllBranches_def
  getAllBranches_loop.simps perPage_def branchesToProcess_def process_branch_def isProtected_def
  matchesExcludePattern_def examine_def getBranchLastCommitDate_def deleteBranch_def
  pushDeleted_def addSkippedBranch_def setOutputs_def

lemma small_listing:
  "getAllBranches small (constructor None False [] []) =
     Some (Inr [''main'', ''feature/a'', ''release/1.0''],
       (constructor None False [] [])\<lparr>calls := [ListBranches 1]\<rparr>)"
  by (simp add: small_def getAllBranches_def getAllBranches_loop.simps perPage_def issue_def
      constructor_def)

lemma small_run_live: "run small (constructor (Some 14) False [''main''] []) = Some small_live"
  by (simp add: small_def small_live_def run_defs)

lemma new_york_listing:
  "getAllBranches new_york (constructor None False [] []) =
     Some (Inr [''main'', ''feature/a'', ''release/1.0'', ''fix/dst''],
       (constructor None False [] [])\<lparr>calls := [ListBranches 1]\<rparr>)"
  by (simp add: new_york_def getAllBranches_def getAllBranches_loop.simps perPage_def issue_def
      constructor_def)

lemma new_york_cutoff:
  "setDate_back (LocalTZA new_york) (Date (clock new_york)) (Some 14) = Date 1698786800000"
  by (simp add: new_york_def TimeClip_def msPerDay_def LocalTime_def UTC_def Day_def
      TimeWithinDay_def MakeDate_def)

lemma guarded_listing:
  "getAllBranches guarded (constructor None False [] []) =
     Some (Inr [''main'', ''develop'', ''tmp/x''],
       (constructor None False [] [])\<lparr>calls := [ListBranches 1]\<rparr>)"
  by (simp add: guarded_def getAllBranches_def getAllBranches_loop.simps perPage_def issue_def
      constructor_def)

lemma guarded_run:
  "run guarded (constructor (Some 14) False [''develop''] ''^tmp/'') = Some guarded_report"
  by (simp add: guarded_def guarded_report_def run_defs)

lemma small_cutoff:
  "setDate_back (LocalTZA small) (Date (clock small)) (Some 14) = Date 1698790400000"
  by (simp add: small_def TimeClip_def msPerDay_def LocalTime_def UTC_def Day_def
      TimeWithinDay_def MakeDate_def)

lemma guarded_cutoff: "setDate_back (LocalTZA guarded) (Date (clock guarded)) (Some 14) = Date (1700000000000 - 14 * 86400000)"
  by (simp add: guarded_def TimeClip_def msPerDay_def LocalTime_def UTC_def Day_def
      TimeWithinDay_def MakeDate_def)

text \<open>A run returns as soon as the listing does.\<close>

lemma run_returns:
  assumes "getAllBranches w that = Some (r, that')"
  obtains this' where "run w this = Some this'"
proof -
  from assms obtain ps where
    tr: "\<And>that. getAllBranches w that = Some (r, that\<lparr>calls := calls that @ map ListBranches ps\<rparr>)"
    by (rule getAllBranches_any) blast
  have "run w this \<noteq> None"
    by (simp add: run_def run_try_def getDefaultBranch_def Let_def tr
        split: sum.splits prod.splits option.splits)
  then show thesis using that by blast
qed

text \<open>The shape of the report of a completed run, for use with the facts on one branch.\<close>

lemma run_total:
  fixes days dry names pattern
  assumes d: "repos_get w = Inr d"
    and c: "setDate_back (LocalTZA w) (Date (clock w)) days = Date c"
    and l: "getAllBranches w that = Some (Inr allBranches, that')"
  obtains this' ps where "run w (constructor days dry names pattern) = Some this'"
    and "SetFailed \<notin> set (calls this')"
    and "deletedBranches this' =
       concat (map (\<lambda>b. deletedBranches (process_branch w (Date c) b
         (fresh (constructor days dry (withDefault d names) pattern))))
         (branchesToProcess allBranches d))"
    and "skippedBranches this' =
       concat (map (\<lambda>b. skippedBranches (process_branch w (Date c) b
         (fresh (constructor days dry (withDefault d names) pattern))))
         (branchesToProcess allBranches d))"
    and "calls this' = ReposGet # map ListBranches ps @
       concat (map (\<lambda>b. calls (process_branch w (Date c) b
         (fresh (constructor days dry (withDefault d names) pattern))))
         (branchesToProcess allBranches d)) @
       (if branchesToProcess allBranches d = [] then []
        else [SetOutput ''deleted-branches'' (JNames (deletedBranches this')),
              SetOutput ''skipped-branches'' (JSkipped (skippedBranches this'))])"
    and "protectedBranches this' = withDefault d names"
proof -
  from run_completes [OF d c l] obtain this' where
    r: "run w (constructor days dry names pattern) = Some this'"
    and nf: "SetFailed \<notin> set (calls this')"
    by blast
  from r nf show thesis
  proof (cases rule: run_report)
    case (1 d' c' all' ps)
    from 1(1) d have d': "d' = d" by simp
    from 1(2) c have c': "c' = c" by simp
    from 1(3) [of that] l have a: "all' = allBranches" by simp
    show thesis
      by (rule that [OF r nf, of ps]) (simp_all only: 1(4-7) d' c' a)
  qed
qed

lemma candidate_not_default: "b \<in> set (branchesToProcess allBranches d) \<Longrightarrow> b \<noteq> d"
  by (simp add: branchesToProcess_def)

lemma in_withDefault: "b \<in> set (withDefault d names) \<longleftrightarrow> b \<in> set names \<or> b = d"
  by (auto simp: withDefault_def)

text \<open>
  A completed run, branch by branch: a name is in the report, or in a call, exactly when it
  is a candidate and its own pass of the loop puts it there.
\<close>

lemma run_by_branch:
  fixes days dry names pattern
  assumes d: "repos_get w = Inr d"
    and c: "setDate_back (LocalTZA w) (Date (clock w)) days = Date c"
    and l: "getAllBranches w that = Some (Inr allBranches, that')"
  obtains this' where "run w (constructor days dry names pattern) = Some this'"
    and "SetFailed \<notin> set (calls this')"
    and "\<And>x. x \<in> set (deletedBranches this') \<longleftrightarrow>
           x \<in> set (branchesToProcess allBranches d) \<and>
           x \<in> set (deletedBranches (process_branch w (Date c) x
             (fresh (constructor days dry (withDefault d names) pattern))))"
    and "\<And>x r. (x, r) \<in> set (skippedBranches this') \<longleftrightarrow>
           x \<in> set (branchesToProcess allBranches d) \<and>
           (x, r) \<in> set (skippedBranches (process_branch w (Date c) x
             (fresh (constructor days dry (withDefault d names) pattern))))"
    and "\<And>x. GetBranch x \<in> set (calls this') \<longleftrightarrow>
           x \<in> set (branchesToProcess allBranches d) \<and>
           GetBranch x \<in> set (calls (process_branch w (Date c) x
             (fresh (constructor days dry (withDefault d names) pattern))))"
    and "\<And>x. DeleteRef (''heads/'' @ x) \<in> set (calls this') \<longleftrightarrow>
           x \<in> set (branchesToProcess allBranches d) \<and>
           DeleteRef (''heads/'' @ x) \<in> set (calls (process_branch w (Date c) x
             (fresh (constructor days dry (withDefault d names) pattern))))"
proof (rule run_total [OF d c l, where dry = dry and names = names and pattern = pattern])
  let ?K = "constructor days dry (withDefault d names) pattern"
  fix this' ps
  assume r: "run w (constructor days dry names pattern) = Some this'"
    and nf: "SetFailed \<notin> set (calls this')"
    and del: "deletedBranches this' =
       concat (map (\<lambda>b. deletedBranches (process_branch w (Date c) b (fresh ?K)))
         (branchesToProcess allBranches d))"
    and skip: "skippedBranches this' =
       concat (map (\<lambda>b. skippedBranches (process_branch w (Date c) b (fresh ?K)))
         (branchesToProcess allBranches d))"
    and cs: "calls this' = ReposGet # map ListBranches ps @
       concat (map (\<lambda>b. calls (process_branch w (Date c) b (fresh ?K)))
         (branchesToProcess allBranches d)) @
       (if branchesToProcess allBranches d = [] then []
        else [SetOutput ''deleted-branches'' (JNames (deletedBranches this')),
              SetOutput ''skipped-branches'' (JSkipped (skippedBranches this'))])"
  have other: "k \<in> set (calls this') \<longleftrightarrow>
      k \<in> set (concat (map (\<lambda>b. calls (process_branch w (Date c) b (fresh ?K)))
         (branchesToProcess allBranches d)))"
    if "k \<noteq> ReposGet" "\<And>p. k \<noteq> ListBranches p" "\<And>n v. k \<noteq> SetOutput n v" for k
  proof -
    have "k \<notin> set (map ListBranches ps)" using that(2) by auto
    moreover have "k \<notin> set (if branchesToProcess allBranches d = [] then []
        else [SetOutput ''deleted-branches'' (JNames (deletedBranches this')),
              SetOutput ''skipped-branches'' (JSkipped (skippedBranches this'))])"
      using that(3) by simp
    ultimately show ?thesis unfolding cs using that(1) by simp
  qed
  show thesis
  proof (rule that [OF r nf])
    show "x \<in> set (deletedBranches this') \<longleftrightarrow>
           x \<in> set (branchesToProcess allBranches d) \<and>
           x \<in> set (deletedBranches (process_branch w (Date c) x (fresh ?K)))" for x
      unfolding del by (rule in_report_deleted)
    show "(x, r) \<in> set (skippedBranches this') \<longleftrightarrow>
           x \<in> set (branchesToProcess allBranches d) \<and>
           (x, r) \<in> set (skippedBranches (process_branch w (Date c) x (fresh ?K)))" for x r
      unfolding skip by (rule in_report_skipped)
    show "GetBranch x \<in> set (calls this') \<longleftrightarrow>
           x \<in> set (branchesToProcess allBranches d) \<and>
           GetBranch x \<in> set (calls (process_branch w (Date c) x (fresh ?K)))" for x
    proof -
      have "GetBranch x \<in> set (calls this') \<longleftrightarrow>
        GetBranch x \<in> set (concat (map (\<lambda>b. calls (process_branch w (Date c) b (fresh ?K)))
         (branchesToProcess allBranches d)))"
        by (rule other) simp_all
      then show ?thesis by (simp only: in_report_GetBranch)
    qed
    show "DeleteRef (''heads/'' @ x) \<in> set (calls this') \<longleftrightarrow>
           x \<in> set (branchesToProcess allBranches d) \<and>
           DeleteRef (''heads/'' @ x) \<in> set (calls (process_branch w (Date c) x (fresh ?K)))" for x
    proof -
      have "DeleteRef (''heads/'' @ x) \<in> set (calls this') \<longleftrightarrow>
        DeleteRef (''heads/'' @ x) \<in> set (concat (map (\<lambda>b. calls (process_branch w (Date c) b (fresh ?K)))
         (branchesToProcess allBranches d)))"
        by (rule other) simp_all
      then show ?thesis by (simp only: in_report_DeleteRef)
    qed
  qed
qed

lemma matchesExcludePattern_pattern:
  "excludePattern this = excludePattern that \<Longrightarrow>
   matchesExcludePattern w this b = matchesExcludePattern w that b"
  by (simp add: matchesExcludePattern_def)

lemma MakeDate_back: "MakeDate (Day t - n) (TimeWithinDay t) = t - n * msPerDay"
proof -
  have "t div msPerDay * msPerDay + t mod msPerDay = t" by simp
  then show ?thesis
    by (simp add: MakeDate_def Day_def TimeWithinDay_def algebra_simps)
qed

text \<open>
  A valid cutoff is the local time of the clock reading, \<open>n\<close> whole days earlier, taken
  back to UTC.
\<close>

lemma valid_cutoff:
  assumes "setDate_back tz (Date now) days = Date c"
  obtains n where "days = Some n" "c = UTC tz (LocalTime tz now - n * msPerDay)"
  using assms by (cases days) (auto simp: TimeClip_def MakeDate_back split: if_splits)

text \<open>
  Every run that returns has one of two shapes: it stopped before the loop, with an empty
  report and no call about a single branch, or it went through the loop.
\<close>

lemma run_shape [consumes 1, case_names stopped looped]:
  fixes days dry names pattern
  assumes "run w (constructor days dry names pattern) = Some this'"
  obtains
    "deletedBranches this' = []" "skippedBranches this' = []"
    "\<And>k. k \<in> set (calls this') \<Longrightarrow> k = ReposGet \<or> k = SetFailed \<or> (\<exists>p. k = ListBranches p)"
    "\<And>d. repos_get w = Inr d \<Longrightarrow> protectedBranches this' = withDefault d names"
  | d c allBranches ps where
    "repos_get w = Inr d"
    "setDate_back (LocalTZA w) (Date (clock w)) days = Date c"
    "\<And>that. getAllBranches w that =
        Some (Inr allBranches, that\<lparr>calls := calls that @ map ListBranches ps\<rparr>)"
    "branchesToProcess allBranches d \<noteq> []"
    "this' = setOutputs (process_branches w (Date c) (branchesToProcess allBranches d)
               (listed d ps (constructor days dry names pattern)))"
  using assms
proof (cases rule: run_cases)
  case (no_default e)
  show ?thesis
    by (rule that(1)) (auto simp: no_default issue_def constructor_def)
next
  case (no_cutoff d)
  show ?thesis
    by (rule that(1))
      (auto simp: no_cutoff issue_def constructor_def addDefaultBranch_def withDefault_def
        split: if_splits)
next
  case (no_listing d c e ps)
  show ?thesis
    by (rule that(1))
      (auto simp: no_listing issue_def listed_fields constructor_fields withDefault_def)
next
  case (no_branches d c allBranches ps)
  show ?thesis
    by (rule that(1))
      (auto simp: no_branches listed_fields constructor_fields withDefault_def)
next
  case (processed d c allBranches ps)
  show ?thesis
    by (rule that(2) [OF processed(1) _ processed(3,4,5)])
      (use processed(2) in \<open>simp add: constructor_fields\<close>)
qed

lemma step_dry_no_DeleteRef:
  assumes "dryRun this"
  shows "DeleteRef ref \<notin> set (calls (process_branch w c b (fresh this)))"
  using assms
  by (cases rule: step_cases [where b = b and this = this and w = w and c = c])
    (simp_all add: step_protected step_excluded step_fetch_failed step_invalid_date
        step_too_recent step_dry_run)

lemma looped_calls:
  fixes days dry names pattern
  assumes "k \<in> set (calls (setOutputs (process_branches w c bs
             (listed d ps (constructor days dry names pattern)))))"
  shows "k = ReposGet \<or> (\<exists>p. k = ListBranches p) \<or> (\<exists>n v. k = SetOutput n v) \<or>
         (\<exists>x\<in>set bs. k \<in> set (calls (process_branch w c x
            (fresh (constructor days dry (withDefault d names) pattern)))))"
  using assms by (auto simp: setOutputs_fields processed_fields)

lemma run_no_default:
  "repos_get w = Inl e \<Longrightarrow> run w this = Some (issue SetFailed (issue ReposGet this))"
  by (simp add: run_def run_try_def getDefaultBranch_def)

lemma run_no_cutoff:
  assumes "repos_get w = Inr d" "setDate_back (LocalTZA w) (Date (clock w)) (daysOld this) = InvalidDate"
  shows "run w this = Some (issue SetFailed (addDefaultBranch d (issue ReposGet this)))"
proof -
  have "daysOld (addDefaultBranch d (issue ReposGet this)) = daysOld this"
    by (simp add: addDefaultBranch_def issue_def)
  with assms show ?thesis
    by (simp add: run_def run_try_def getDefaultBranch_def Let_def)
qed

lemma run_no_listing:
  assumes "repos_get w = Inr d" "setDate_back (LocalTZA w) (Date (clock w)) (daysOld this) = Date c"
    and "\<And>that. getAllBranches w that =
              Some (Inl e, that\<lparr>calls := calls that @ map ListBranches ps\<rparr>)"
  shows "run w this = Some (issue SetFailed (listed d ps this))"
proof -
  have "daysOld (addDefaultBranch d (issue ReposGet this)) = daysOld this"
    by (simp add: addDefaultBranch_def issue_def)
  with assms show ?thesis
    by (simp add: run_def run_try_def getDefaultBranch_def Let_def listed_eq)
qed

lemma step_dry_vs_live:
  assumes dl: "dryRun D" "\<not> dryRun L"
    and same: "protectedBranches D = protectedBranches L" "excludePattern D = excludePattern L"
    and ok: "DeleteRef (''heads/'' @ b) \<in> set (calls (process_branch w c b (fresh L))) \<Longrightarrow>
             git_deleteRef w (''heads/'' @ b) = Inr ()"
  shows "deletedBranches (process_branch w c b (fresh D)) =
         deletedBranches (process_branch w c b (fresh L))"
    and "skippedBranches (process_branch w c b (fresh D)) =
         skippedBranches (process_branch w c b (fresh L))"
    and "calls (process_branch w c b (fresh D)) =
         filter (\<lambda>k. \<not> is_DeleteRef k) (calls (process_branch w c b (fresh L)))"
proof -
  have m: "matchesExcludePattern w D b = matchesExcludePattern w L b"
    by (rule matchesExcludePattern_pattern) (rule same(2))
  have "deletedBranches (process_branch w c b (fresh D)) =
         deletedBranches (process_branch w c b (fresh L)) \<and>
        skippedBranches (process_branch w c b (fresh D)) =
         skippedBranches (process_branch w c b (fresh L)) \<and>
        calls (process_branch w c b (fresh D)) =
         filter (\<lambda>k. \<not> is_DeleteRef k) (calls (process_branch w c b (fresh L)))"
  proof (cases rule: step_cases [where b = b and this = L and w = w and c = c])
    case protected
    then have "b \<in> set (protectedBranches D)" by (simp add: same)
    from step_protected [OF this] step_protected [OF protected] show ?thesis by simp
  next
    case excluded
    then have "b \<notin> set (protectedBranches D)" "matchesExcludePattern w D b"
      by (simp_all add: same m)
    from step_excluded [OF this] step_excluded [OF excluded] show ?thesis by simp
  next
    case (fetch_failed e)
    then have "b \<notin> set (protectedBranches D)" "\<not> matchesExcludePattern w D b"
      by (simp_all add: same m)
    from step_fetch_failed [OF this fetch_failed(3)] step_fetch_failed [OF fetch_failed]
    show ?thesis by simp
  next
    case invalid_date
    then have "b \<notin> set (protectedBranches D)" "\<not> matchesExcludePattern w D b"
      by (simp_all add: same m)
    from step_invalid_date [OF this invalid_date(3)] step_invalid_date [OF invalid_date]
    show ?thesis by simp
  next
    case (too_recent t)
    then have "b \<notin> set (protectedBranches D)" "\<not> matchesExcludePattern w D b"
      by (simp_all add: same m)
    from step_too_recent [OF this too_recent(3,4)] step_too_recent [OF too_recent]
    show ?thesis by simp
  next
    case (dry_run t)
    with dl(2) show ?thesis by simp
  next
    case (deleted t)
    then have "b \<notin> set (protectedBranches D)" "\<not> matchesExcludePattern w D b"
      by (simp_all add: same m)
    from step_dry_run [OF this deleted(3,4) dl(1)] step_deleted [OF deleted]
    show ?thesis by simp
  next
    case (deletion_failed t e)
    from step_deletion_failed(3) [OF deletion_failed]
    have "DeleteRef (''heads/'' @ b) \<in> set (calls (process_branch w c b (fresh L)))" by simp
    from ok [OF this] deletion_failed(6) show ?thesis by simp
  qed
  then show "deletedBranches (process_branch w c b (fresh D)) =
         deletedBranches (process_branch w c b (fresh L))"
    and "skippedBranches (process_branch w c b (fresh D)) =
         skippedBranches (process_branch w c b (fresh L))"
    and "calls (process_branch w c b (fresh D)) =
         filter (\<lambda>k. \<not> is_DeleteRef k) (calls (process_branch w c b (fresh L)))"
    by simp_all
qed

lemma filter_ListBranches:
  "filter (\<lambda>k. \<not> is_DeleteRef k) (map ListBranches ps) = map ListBranches ps"
  by (induction ps) simp_all

lemma faulty_listing:
  "getAllBranches faulty (constructor None False [] []) =
     Some (Inr [''main'', ''gone'', ''locked'', ''feature/a''],
       (constructor None False [] [])\<lparr>calls := [ListBranches 1]\<rparr>)"
  by (simp add: faulty_def getAllBranches_def getAllBranches_loop.simps perPage_def issue_def
      constructor_def)

lemma faulty_run: "run faulty (constructor (Some 14) False [''main''] []) = Some faulty_report"
  by (simp add: faulty_def faulty_report_def run_defs)

lemma step_bad_pattern:
  assumes "RegExp w (excludePattern this) = Inl e"
  shows "process_branch w c b (this\<lparr>excludePattern := []\<rparr>) =
         (process_branch w c b this)\<lparr>excludePattern := []\<rparr>"
  using assms
  by (simp add: process_branch_unfold update_defs split: sum.splits jsdate.splits)

lemma loop_bad_pattern:
  assumes "RegExp w (excludePattern this) = Inl e"
  shows "process_branches w c bs (this\<lparr>excludePattern := []\<rparr>) =
         (process_branches w c bs this)\<lparr>excludePattern := []\<rparr>"
  using assms
proof (induction bs arbitrary: this)
  case Nil
  show ?case by simp
next
  case (Cons b bs)
  from Cons.prems have "RegExp w (excludePattern (process_branch w c b this)) = Inl e"
    by (simp add: process_branch_config)
  from Cons.IH [OF this] show ?case
    by (simp add: step_bad_pattern [OF Cons.prems])
qed

lemma step_not_excluded:
  assumes "\<not> matchesExcludePattern w this b"
  shows "(x, ''matches_exclude_pattern'') \<notin>
         set (skippedBranches (process_branch w c b (fresh this)))"
  using assms
  by (cases rule: step_cases [where b = b and this = this and w = w and c = c])
    (simp_all add: step_protected step_fetch_failed step_invalid_date
        step_too_recent step_dry_run step_deleted step_deletion_failed)

lemma step_agree:
  assumes "RegExp w2 = RegExp w" "repos_getBranch w2 x = repos_getBranch w x"
    and "git_deleteRef w2 (''heads/'' @ x) = git_deleteRef w (''heads/'' @ x)"
  shows "process_branch w2 c x this = process_branch w c x this"
proof -
  have 1: "deleteBranch w2 s x = deleteBranch w s x" for s
    using assms(3) by (simp add: deleteBranch_def)
  have 2: "getBranchLastCommitDate w2 s x = getBranchLastCommitDate w s x" for s
    by (simp add: getBranchLastCommitDate_def assms(2))
  have 3: "examine w2 c x s = examine w c x s" for s
    by (simp add: examine_def 1 2 cong: prod.case_cong sum.case_cong if_cong)
  have 4: "matchesExcludePattern w2 s x = matchesExcludePattern w s x" for s
    by (simp add: matchesExcludePattern_def assms(1))
  show ?thesis by (simp add: process_branch_def 3 4)
qed

lemma step_filter_own:
  "filter (\<lambda>y. y \<noteq> b) (deletedBranches (process_branch w c b (fresh this))) = []"
  "filter (\<lambda>(y, r). y \<noteq> b) (skippedBranches (process_branch w c b (fresh this))) = []"
  using step_names(1) [where w = w and c = c and b = b and this = this]
    step_names(2) [where w = w and c = c and b = b and this = this]
  by (auto simp: filter_empty_conv)

lemma getAllBranches_same_listing:
  fixes w2 :: world
  assumes "getAllBranches w this = Some (r, this')"
    and "repos_listBranches w2 = repos_listBranches w"
  shows "\<exists>that2. getAllBranches w2 that = Some (r, that2)"
proof (rule getAllBranches_transfer [OF assms(1)])
  fix ps
  assume "\<And>(w2::world) that. repos_listBranches w2 = repos_listBranches w \<Longrightarrow>
          getAllBranches w2 that = Some (r, that\<lparr>calls := calls that @ map ListBranches ps\<rparr>)"
  from this [OF assms(2), of that] show ?thesis by blast
qed

text \<open>What the report says of the branches other than \<open>b\<close> depends on the answers about them only.\<close>

lemma report_of_others:
  assumes "RegExp w2 = RegExp w"
    and "\<forall>x. x \<noteq> b \<longrightarrow> repos_getBranch w2 x = repos_getBranch w x \<and>
           git_deleteRef w2 (''heads/'' @ x) = git_deleteRef w (''heads/'' @ x)"
  shows "filter (\<lambda>y. y \<noteq> b)
           (concat (map (\<lambda>x. deletedBranches (process_branch w2 c x (fresh K))) bs)) =
         filter (\<lambda>y. y \<noteq> b)
           (concat (map (\<lambda>x. deletedBranches (process_branch w c x (fresh K))) bs))"
    and "filter (\<lambda>(y, r). y \<noteq> b)
           (concat (map (\<lambda>x. skippedBranches (process_branch w2 c x (fresh K))) bs)) =
         filter (\<lambda>(y, r). y \<noteq> b)
           (concat (map (\<lambda>x. skippedBranches (process_branch w c x (fresh K))) bs))"
proof -
  have same: "process_branch w2 c x (fresh K) = process_branch w c x (fresh K)" if "x \<noteq> b" for x
    using assms that by (intro step_agree) simp_all
  have 1: "filter (\<lambda>y. y \<noteq> b) (deletedBranches (process_branch w2 c x (fresh K))) =
        filter (\<lambda>y. y \<noteq> b) (deletedBranches (process_branch w c x (fresh K)))" for x
    by (cases "x = b") (simp_all add: step_filter_own same)
  have 2: "filter (\<lambda>(y, r). y \<noteq> b) (skippedBranches (process_branch w2 c x (fresh K))) =
        filter (\<lambda>(y, r). y \<noteq> b) (skippedBranches (process_branch w c x (fresh K)))" for x
    by (cases "x = b") (simp_all add: step_filter_own same)
  show "filter (\<lambda>y. y \<noteq> b)
           (concat (map (\<lambda>x. deletedBranches (process_branch w2 c x (fresh K))) bs)) =
         filter (\<lambda>y. y \<noteq> b)
           (concat (map (\<lambda>x. deletedBranches (process_branch w c x (fresh K))) bs))"
    by (simp add: filter_concat comp_def 1)
  show "filter (\<lambda>(y, r). y \<noteq> b)
           (concat (map (\<lambda>x. skippedBranches (process_branch w2 c x (fresh K))) bs)) =
         filter (\<lambda>(y, r). y \<noteq> b)
           (concat (map (\<lambda>x. skippedBranches (process_branch w c x (fresh K))) bs))"
    by (simp add: filter_concat comp_def 2)
qed

section \<open>The outputs\<close>

lemma step_no_SetOutput:
  "filter is_SetOutput (calls (process_branch w c b (fresh this))) = []"
proof -
  have "\<not> is_SetOutput k" if "k \<in> set (calls (process_branch w c b (fresh this)))" for k
    using step_names(3) [OF that] by auto
  then show ?thesis by (simp add: filter_empty_conv)
qed

lemma filter_SetOutput_ListBranches: "filter is_SetOutput (map ListBranches ps) = []"
  by (induction ps) simp_all

text \<open>
  The outputs of a run that does not fail: both are set, once, from the final lists when
  there is a candidate, and none is set when there is no candidate.
\<close>

lemma outputs_of_run:
  fixes days dry names pattern
  assumes "repos_get w = Inr d"
    and "setDate_back (LocalTZA w) (Date (clock w)) days = Date c"
    and "getAllBranches w that = Some (Inr allBranches, that')"
  shows "\<exists>this'. run w (constructor days dry names pattern) = Some this' \<and>
           SetFailed \<notin> set (calls this') \<and>
           filter is_SetOutput (calls this') =
             (if branchesToProcess allBranches d = [] then []
              else [SetOutput ''deleted-branches'' (JNames (deletedBranches this')),
                    SetOutput ''skipped-branches'' (JSkipped (skippedBranches this'))])"
proof (rule run_total [OF assms, where dry = dry and names = names and pattern = pattern])
  let ?K = "constructor days dry (withDefault d names) pattern"
  let ?bs = "branchesToProcess allBranches d"
  fix this' ps
  assume r: "run w (constructor days dry names pattern) = Some this'"
    and nf: "SetFailed \<notin> set (calls this')"
    and cs: "calls this' = ReposGet # map ListBranches ps @
       concat (map (\<lambda>b. calls (process_branch w (Date c) b (fresh ?K))) ?bs) @
       (if ?bs = [] then []
        else [SetOutput ''deleted-branches'' (JNames (deletedBranches this')),
              SetOutput ''skipped-branches'' (JSkipped (skippedBranches this'))])"
  have "filter is_SetOutput (calls this') =
             (if ?bs = [] then []
              else [SetOutput ''deleted-branches'' (JNames (deletedBranches this')),
                    SetOutput ''skipped-branches'' (JSkipped (skippedBranches this'))])"
    by (subst cs)
      (simp add: filter_SetOutput_ListBranches filter_concat comp_def step_no_SetOutput)
  with r nf show ?thesis by blast
qed

section \<open>The claims\<close>

text \<open>
  C1. A candidate branch that is neither protected nor excluded and whose last commit date
  is fetched is examined against the one cutoff of the run: the local calendar date of the
  clock reading moved back by \<open>daysOld\<close> days, at the same local time of day. It is
  deletable (in the deleted list, or skipped with \<open>deletion_failed\<close> when the live
  deletion fails) exactly when its date is before the cutoff, and skipped with
  \<open>too_recent\<close> exactly when its date is at or after the cutoff. With 14 days, a commit
  made 15 days before the clock reading is deletable and one made 13 days before it is too
  recent, in every time zone whose offset at the cutoff and offset at the clock reading
  are less than a day apart.
\<close>

theorem deletable_iff_older_than_cutoff:
  fixes days dry names pattern
  assumes "repos_get w = Inr d"
    and "setDate_back (LocalTZA w) (Date (clock w)) days = Date c"
    and "getAllBranches w that = Some (Inr allBranches, that')"
    and "b \<in> set (branchesToProcess allBranches d)"
    and "b \<notin> set names"
    and "\<not> matchesExcludePattern w (constructor days dry names pattern) b"
    and "repos_getBranch w b = Inr (Date t)"
  shows "\<exists>this'. run w (constructor days dry names pattern) = Some this' \<and>
           GetBranch b \<in> set (calls this') \<and>
           (\<exists>n. days = Some n \<and>
              c = UTC (LocalTZA w) (LocalTime (LocalTZA w) (clock w) - n * msPerDay)) \<and>
           ((t < c) = (b \<in> set (deletedBranches this') \<or>
                       (b, ''deletion_failed'') \<in> set (skippedBranches this'))) \<and>
           ((c \<le> t) = ((b, ''too_recent'') \<in> set (skippedBranches this'))) \<and>
           (t < c \<longrightarrow> (b \<in> set (deletedBranches this')) =
                       (dry \<or> git_deleteRef w (''heads/'' @ b) = Inr ())) \<and>
           (days = Some 14 \<longrightarrow> t = clock w - 15 * msPerDay \<longrightarrow>
              LocalTZA w (LocalTime (LocalTZA w) (clock w) - 14 * msPerDay) False -
                LocalTZA w (clock w) True < msPerDay \<longrightarrow>
              b \<in> set (deletedBranches this') \<or>
              (b, ''deletion_failed'') \<in> set (skippedBranches this')) \<and>
           (days = Some 14 \<longrightarrow> t = clock w - 13 * msPerDay \<longrightarrow>
              LocalTZA w (clock w) True -
                LocalTZA w (LocalTime (LocalTZA w) (clock w) - 14 * msPerDay) False \<le> msPerDay \<longrightarrow>
              (b, ''too_recent'') \<in> set (skippedBranches this'))"
proof (rule run_by_branch [OF assms(1-3), where dry = dry and names = names and pattern = pattern])
  let ?K = "constructor days dry (withDefault d names) pattern"
  fix this'
  assume r: "run w (constructor days dry names pattern) = Some this'"
    and del: "\<And>x. x \<in> set (deletedBranches this') \<longleftrightarrow>
           x \<in> set (branchesToProcess allBranches d) \<and>
           x \<in> set (deletedBranches (process_branch w (Date c) x (fresh ?K)))"
    and skip: "\<And>x r. (x, r) \<in> set (skippedBranches this') \<longleftrightarrow>
           x \<in> set (branchesToProcess allBranches d) \<and>
           (x, r) \<in> set (skippedBranches (process_branch w (Date c) x (fresh ?K)))"
    and get: "\<And>x. GetBranch x \<in> set (calls this') \<longleftrightarrow>
           x \<in> set (branchesToProcess allBranches d) \<and>
           GetBranch x \<in> set (calls (process_branch w (Date c) x (fresh ?K)))"
  from assms(4,5) have p: "b \<notin> set (protectedBranches ?K)"
    by (simp add: constructor_fields in_withDefault candidate_not_default)
  from assms(6) have m: "\<not> matchesExcludePattern w ?K b"
    using matchesExcludePattern_pattern [of ?K "constructor days dry names pattern" w b]
    by (simp add: constructor_fields)
  have dry: "dryRun ?K = dry" by (simp add: constructor_fields)
  note g = assms(7) and cand = assms(4)
  from assms(2) obtain n where n: "days = Some n"
    "c = UTC (LocalTZA w) (LocalTime (LocalTZA w) (clock w) - n * msPerDay)"
    by (rule valid_cutoff)
  have inD: "b \<in> set (deletedBranches this') \<longleftrightarrow>
      b \<in> set (deletedBranches (process_branch w (Date c) b (fresh ?K)))"
    and inS: "\<And>r. (b, r) \<in> set (skippedBranches this') \<longleftrightarrow>
      (b, r) \<in> set (skippedBranches (process_branch w (Date c) b (fresh ?K)))"
    and inG: "GetBranch b \<in> set (calls this') \<longleftrightarrow>
      GetBranch b \<in> set (calls (process_branch w (Date c) b (fresh ?K)))"
    using cand by (simp_all add: del skip get)
  have main: "GetBranch b \<in> set (calls this') \<and>
           ((t < c) = (b \<in> set (deletedBranches this') \<or>
                       (b, ''deletion_failed'') \<in> set (skippedBranches this'))) \<and>
           ((c \<le> t) = ((b, ''too_recent'') \<in> set (skippedBranches this'))) \<and>
           (t < c \<longrightarrow> (b \<in> set (deletedBranches this')) =
                       (dry \<or> git_deleteRef w (''heads/'' @ b) = Inr ()))"
  proof (cases "t < c")
    case False
    then have o: "\<not> date_less (Date t) (Date c)" by simp
    show ?thesis
      unfolding inD inS inG step_too_recent [OF p m g o] using False by simp
  next
    case True
    then have o: "date_less (Date t) (Date c)" by simp
    show ?thesis
    proof (cases dry)
      case True
      with dry have dr: "dryRun ?K" by simp
      show ?thesis
        unfolding inD inS inG step_dry_run [OF p m g o dr] using \<open>t < c\<close> True by simp
    next
      case False
      with dry have dr: "\<not> dryRun ?K" by simp
      show ?thesis
      proof (cases "git_deleteRef w (''heads/'' @ b)")
        case (Inl e)
        show ?thesis
          unfolding inD inS inG step_deletion_failed [OF p m g o dr Inl]
          using \<open>t < c\<close> False Inl by simp
      next
        case (Inr u)
        show ?thesis
          unfolding inD inS inG step_deleted [OF p m g o dr Inr]
          using \<open>t < c\<close> False Inr by simp
      qed
    qed
  qed
  have "t < c" if "days = Some 14" "t = clock w - 15 * msPerDay"
    "LocalTZA w (LocalTime (LocalTZA w) (clock w) - 14 * msPerDay) False -
       LocalTZA w (clock w) True < msPerDay"
    using that n by (simp add: UTC_def LocalTime_def)
  moreover have "c \<le> t" if "days = Some 14" "t = clock w - 13 * msPerDay"
    "LocalTZA w (clock w) True -
       LocalTZA w (LocalTime (LocalTZA w) (clock w) - 14 * msPerDay) False \<le> msPerDay"
    using that n by (simp add: UTC_def LocalTime_def)
  ultimately show ?thesis using r n main by blast
qed

theorem deletable_iff_older_than_cutoff_witness:
  "repos_get new_york = Inr ''main'' \<and>
   setDate_back (LocalTZA new_york) (Date (clock new_york)) (Some 14) = Date 1698786800000 \<and>
   ''feature/a'' \<in> set (branchesToProcess
      [''main'', ''feature/a'', ''release/1.0'', ''fix/dst''] ''main'') \<and>
   \<not> matchesExcludePattern new_york (constructor (Some 14) False [''main''] []) ''feature/a'' \<and>
   repos_getBranch new_york ''feature/a'' = Inr (Date (clock new_york - 15 * msPerDay)) \<and>
   repos_getBranch new_york ''release/1.0'' = Inr (Date (clock new_york - 13 * msPerDay)) \<and>
   repos_getBranch new_york ''fix/dst'' = Inr (Date 1698788600000) \<and>
   LocalTZA new_york (LocalTime (LocalTZA new_york) (clock new_york) - 14 * msPerDay) False -
     LocalTZA new_york (clock new_york) True = 3600000 \<and>
   (\<exists>this'. run new_york (constructor (Some 14) False [''main''] []) = Some this' \<and>
      ''feature/a'' \<in> set (deletedBranches this') \<and>
      (''release/1.0'', ''too_recent'') \<in> set (skippedBranches this') \<and>
      (''fix/dst'', ''too_recent'') \<in> set (skippedBranches this'))"
proof -
  let ?bs = "[''main'', ''feature/a'', ''release/1.0'', ''fix/dst'']"
  let ?X = "constructor (Some 14) False [''main''] []"
  have d: "repos_get new_york = Inr ''main''" by (simp add: new_york_def)
  note c = new_york_cutoff
  have b1: "''feature/a'' \<in> set (branchesToProcess ?bs ''main'')"
    and b2: "''release/1.0'' \<in> set (branchesToProcess ?bs ''main'')"
    and b3: "''fix/dst'' \<in> set (branchesToProcess ?bs ''main'')"
    by (simp_all add: branchesToProcess_def)
  have n1: "''feature/a'' \<notin> set [''main'']" and n2: "''release/1.0'' \<notin> set [''main'']"
    and n3: "''fix/dst'' \<notin> set [''main'']"
    by simp_all
  have m: "\<not> matchesExcludePattern new_york ?X x" for x
    by (simp add: matchesExcludePattern_def constructor_def)
  have g1: "repos_getBranch new_york ''feature/a'' = Inr (Date (clock new_york - 15 * msPerDay))"
    and g2: "repos_getBranch new_york ''release/1.0'' = Inr (Date (clock new_york - 13 * msPerDay))"
    and g3: "repos_getBranch new_york ''fix/dst'' = Inr (Date 1698788600000)"
    by (simp_all add: new_york_def msPerDay_def)
  have z: "LocalTZA new_york (LocalTime (LocalTZA new_york) (clock new_york) - 14 * msPerDay) False -
     LocalTZA new_york (clock new_york) True = 3600000"
    by (simp add: new_york_def LocalTime_def msPerDay_def)
  have ok: "git_deleteRef new_york (''heads/'' @ ''feature/a'') = Inr ()"
    by (simp add: new_york_def)
  from deletable_iff_older_than_cutoff [OF d c new_york_listing b1 n1 m g1]
  obtain s1 where r1: "run new_york ?X = Some s1"
    and 1: "''feature/a'' \<in> set (deletedBranches s1)"
    using ok z by (auto simp: msPerDay_def)
  from deletable_iff_older_than_cutoff [OF d c new_york_listing b2 n2 m g2]
  obtain s2 where r2: "run new_york ?X = Some s2"
    and 2: "(''release/1.0'', ''too_recent'') \<in> set (skippedBranches s2)"
    using z by (auto simp: msPerDay_def)
  from deletable_iff_older_than_cutoff [OF d c new_york_listing b3 n3 m g3]
  obtain s3 where r3: "run new_york ?X = Some s3"
    and 3: "(''fix/dst'', ''too_recent'') \<in> set (skippedBranches s3)"
    by auto
  from r1 r2 r3 have "s2 = s1" "s3 = s1" by simp_all
  with r1 1 2 3 d c b1 m g1 g2 g3 z show ?thesis by blast
qed

text \<open>
  C2. In a run that does not abort with a fatal error, every candidate branch (every listed
  branch other than the default branch) is in exactly one of the deleted list and the
  skipped list: a name occurs in the two lists together as often as among the candidates,
  which is once when the names of the listing are distinct.
\<close>

theorem every_candidate_reported_once:
  fixes days dry names pattern
  assumes "run w (constructor days dry names pattern) = Some this'"
    and "SetFailed \<notin> set (calls this')"
    and "repos_get w = Inr d"
    and "getAllBranches w that = Some (Inr allBranches, that')"
  shows "count_list (deletedBranches this') b + count_list (map fst (skippedBranches this')) b =
           count_list (branchesToProcess allBranches d) b \<and>
         (distinct allBranches \<longrightarrow> b \<in> set (branchesToProcess allBranches d) \<longrightarrow>
            count_list (deletedBranches this') b +
            count_list (map fst (skippedBranches this')) b = 1)"
  using assms(1,2)
proof (cases rule: run_report)
  case (1 d' c all' ps)
  from 1(1) assms(3) have d: "d' = d" by simp
  from 1(3) [of that] assms(4) have a: "all' = allBranches" by simp
  have eq: "count_list (deletedBranches this') b + count_list (map fst (skippedBranches this')) b =
           count_list (branchesToProcess allBranches d) b"
    unfolding 1(4,5) d a by (rule report_count)
  have "distinct (branchesToProcess allBranches d)" if "distinct allBranches"
    using that by (simp add: branchesToProcess_def)
  with eq show ?thesis by (simp add: count_list_distinct)
qed

theorem every_candidate_reported_once_witness:
  "run small (constructor (Some 14) False [''main''] []) = Some small_live \<and>
   SetFailed \<notin> set (calls small_live) \<and>
   repos_get small = Inr ''main'' \<and>
   distinct [''main'', ''feature/a'', ''release/1.0''] \<and>
   ''feature/a'' \<in> set (branchesToProcess [''main'', ''feature/a'', ''release/1.0''] ''main'') \<and>
   count_list (deletedBranches small_live) ''feature/a'' +
   count_list (map fst (skippedBranches small_live)) ''feature/a'' = 1"
proof -
  have nf: "SetFailed \<notin> set (calls small_live)" by (simp add: small_live_def)
  have d: "repos_get small = Inr ''main''" by (simp add: small_def)
  from every_candidate_reported_once [OF small_run_live nf d small_listing,
      where b = "''feature/a''"] small_run_live nf d
  show ?thesis by (simp add: branchesToProcess_def)
qed

text \<open>
  C3. Whatever the configuration, the default branch is not a candidate, and it is never
  deleted, skipped or fetched, and no \<open>deleteRef\<close> request names it. The list of
  protected names ends as the configured names, with the default branch appended when it
  was absent. When the run gets to the loop, the loop starts from the instance
  \<open>listed\<close>, in which the default branch is already among the protected names, and the
  default branch is among them when each candidate is classified.
\<close>

theorem default_branch_always_protected:
  fixes days dry names pattern
  assumes "repos_get w = Inr d"
    and "getAllBranches w that = Some (r, that')"
  shows "d \<notin> set (branchesToProcess allBranches d) \<and>
    (\<exists>this'. run w (constructor days dry names pattern) = Some this' \<and>
       protectedBranches this' = (if d \<in> set names then names else names @ [d]) \<and>
       d \<notin> set (deletedBranches this') \<and>
       d \<notin> fst ` set (skippedBranches this') \<and>
       GetBranch d \<notin> set (calls this') \<and>
       DeleteRef (''heads/'' @ d) \<notin> set (calls this') \<and>
       (\<forall>c listing. setDate_back (LocalTZA w) (Date (clock w)) days = Date c \<longrightarrow>
          r = Inr listing \<longrightarrow>
          (\<exists>ps. d \<in> set (protectedBranches (listed d ps (constructor days dry names pattern))) \<and>
             protectedBranches (listed d ps (constructor days dry names pattern)) =
               (if d \<in> set names then names else names @ [d]) \<and>
             this' =
               (if branchesToProcess listing d = []
                then listed d ps (constructor days dry names pattern)
                else setOutputs (process_branches w (Date c) (branchesToProcess listing d)
                       (listed d ps (constructor days dry names pattern)))) \<and>
             (\<forall>pre post. branchesToProcess listing d = pre @ post \<longrightarrow>
                d \<in> set (protectedBranches (process_branches w (Date c) pre
                       (listed d ps (constructor days dry names pattern))))))))"
proof -
  let ?I = "constructor days dry names pattern"
  from assms(2) obtain this' where r: "run w ?I = Some this'"
    by (rule run_returns)
  have nc: "d \<notin> set (branchesToProcess bs d)" for bs
    by (simp add: branchesToProcess_def)
  have "protectedBranches this' = (if d \<in> set names then names else names @ [d]) \<and>
       d \<notin> set (deletedBranches this') \<and>
       d \<notin> fst ` set (skippedBranches this') \<and>
       GetBranch d \<notin> set (calls this') \<and>
       DeleteRef (''heads/'' @ d) \<notin> set (calls this')"
    using r
  proof (cases rule: run_shape)
    case stopped
    from stopped(1,2) stopped(3) [of "GetBranch d"] stopped(3) [of "DeleteRef (''heads/'' @ d)"]
      stopped(4) [OF assms(1)]
    show ?thesis by (auto simp: withDefault_def)
  next
    case (looped d' c allBranches ps)
    from looped(1) assms(1) have d': "d' = d" by simp
    let ?K = "constructor days dry (withDefault d names) pattern"
    let ?bs = "branchesToProcess allBranches d"
    note f = looped(5) [unfolded d']
    have 1: "protectedBranches this' = (if d \<in> set names then names else names @ [d])"
      by (simp add: f setOutputs_fields processed_fields withDefault_def)
    have 2: "d \<notin> set (deletedBranches this')"
      by (simp only: f setOutputs_fields processed_fields in_report_deleted nc) simp
    have 3: "(d, x) \<notin> set (skippedBranches this')" for x
      by (simp only: f setOutputs_fields processed_fields in_report_skipped nc) simp
    have 4: "k \<notin> set (calls this')"
      if "k = GetBranch d \<or> k = DeleteRef (''heads/'' @ d)" for k
    proof
      assume "k \<in> set (calls this')"
      from looped_calls [OF this [unfolded f]] that
      obtain x where "x \<in> set ?bs" "k \<in> set (calls (process_branch w (Date c) x (fresh ?K)))"
        by auto
      with step_names(3) [of k w "Date c" x ?K] that nc [of allBranches] show False by auto
    qed
    from 1 2 3 4 show ?thesis by force
  qed
  moreover have "\<exists>ps. d \<in> set (protectedBranches (listed d ps ?I)) \<and>
             protectedBranches (listed d ps ?I) =
               (if d \<in> set names then names else names @ [d]) \<and>
             this' =
               (if branchesToProcess listing d = [] then listed d ps ?I
                else setOutputs (process_branches w (Date c) (branchesToProcess listing d)
                       (listed d ps ?I))) \<and>
             (\<forall>pre post. branchesToProcess listing d = pre @ post \<longrightarrow>
                d \<in> set (protectedBranches (process_branches w (Date c) pre (listed d ps ?I))))"
    if c: "setDate_back (LocalTZA w) (Date (clock w)) days = Date c" and l: "r = Inr listing"
    for c listing
  proof -
    from assms(2) [unfolded l] obtain ps where
      tr: "\<And>that. getAllBranches w that =
             Some (Inr listing, that\<lparr>calls := calls that @ map ListBranches ps\<rparr>)"
      by (rule getAllBranches_any) blast
    from c have c': "setDate_back (LocalTZA w) (Date (clock w)) (daysOld ?I) = Date c"
      by (simp add: constructor_fields)
    have start: "protectedBranches (listed d ps ?I) =
        (if d \<in> set names then names else names @ [d])"
      by (simp add: listed_fields constructor_fields)
    then have mem: "d \<in> set (protectedBranches (listed d ps ?I))" by simp
    from run_listed [OF assms(1) c' tr] r
    have "this' =
        (if branchesToProcess listing d = [] then listed d ps ?I
         else setOutputs (process_branches w (Date c) (branchesToProcess listing d)
                (listed d ps ?I)))"
      by simp
    moreover have "d \<in> set (protectedBranches (process_branches w (Date c) pre (listed d ps ?I)))"
      for pre
      using mem by (simp only: process_branches_config)
    ultimately show ?thesis using start mem by blast
  qed
  ultimately show ?thesis using r nc by blast
qed

theorem default_branch_always_protected_witness:
  "repos_get small = Inr ''main'' \<and>
   getAllBranches small (constructor None False [] []) =
     Some (Inr [''main'', ''feature/a'', ''release/1.0''],
       (constructor None False [] [])\<lparr>calls := [ListBranches 1]\<rparr>) \<and>
   setDate_back (LocalTZA small) (Date (clock small)) (Some 14) = Date 1698790400000 \<and>
   branchesToProcess [''main'', ''feature/a'', ''release/1.0''] ''main'' =
     [''feature/a''] @ [''release/1.0''] \<and>
   (\<exists>this' ps. run small (constructor (Some 14) False [''develop''] []) = Some this' \<and>
      protectedBranches this' = [''develop'', ''main''] \<and>
      ''main'' \<notin> set (deletedBranches this') \<and>
      DeleteRef ''heads/main'' \<notin> set (calls this') \<and>
      protectedBranches (listed ''main'' ps (constructor (Some 14) False [''develop''] [])) =
        [''develop'', ''main''] \<and>
      this' = setOutputs (process_branches small (Date 1698790400000)
                [''feature/a'', ''release/1.0'']
                (listed ''main'' ps (constructor (Some 14) False [''develop''] []))) \<and>
      ''main'' \<in> set (protectedBranches (process_branches small (Date 1698790400000)
                [''feature/a''] (listed ''main'' ps (constructor (Some 14) False [''develop''] [])))))"
proof -
  let ?X = "constructor (Some 14) False [''develop''] []"
  have d: "repos_get small = Inr ''main''" by (simp add: small_def)
  have bs: "branchesToProcess [''main'', ''feature/a'', ''release/1.0''] ''main'' =
     [''feature/a''] @ [''release/1.0'']"
    by (simp add: branchesToProcess_def)
  note main = default_branch_always_protected [OF d small_listing,
      where days = "Some 14" and dry = False and names = "[''develop'']" and pattern = "[]",
      THEN conjunct2]
  from main show ?thesis
  proof (elim exE conjE)
    fix this'
    assume r: "run small ?X = Some this'"
      and 0: "protectedBranches this' =
        (if ''main'' \<in> set [''develop''] then [''develop''] else [''develop''] @ [''main''])"
      and 2: "''main'' \<notin> set (deletedBranches this')"
      and 30: "DeleteRef (''heads/'' @ ''main'') \<notin> set (calls this')"
      and loop: "\<forall>c listing.
          setDate_back (LocalTZA small) (Date (clock small)) (Some 14) = Date c \<longrightarrow>
          Inr [''main'', ''feature/a'', ''release/1.0''] = Inr listing \<longrightarrow>
          (\<exists>ps. ''main'' \<in> set (protectedBranches (listed ''main'' ps ?X)) \<and>
             protectedBranches (listed ''main'' ps ?X) =
               (if ''main'' \<in> set [''develop''] then [''develop''] else [''develop''] @ [''main'']) \<and>
             this' =
               (if branchesToProcess listing ''main'' = [] then listed ''main'' ps ?X
                else setOutputs (process_branches small (Date c) (branchesToProcess listing ''main'')
                       (listed ''main'' ps ?X))) \<and>
             (\<forall>pre post. branchesToProcess listing ''main'' = pre @ post \<longrightarrow>
                ''main'' \<in> set (protectedBranches (process_branches small (Date c) pre
                       (listed ''main'' ps ?X)))))"
    from 0 have 1: "protectedBranches this' = [''develop'', ''main'']" by simp
    from 30 have 3: "DeleteRef ''heads/main'' \<notin> set (calls this')" by simp
    from loop [rule_format, OF small_cutoff refl] show ?thesis
    proof (elim exE conjE)
      fix ps
      assume 4: "protectedBranches (listed ''main'' ps ?X) =
          (if ''main'' \<in> set [''develop''] then [''develop''] else [''develop''] @ [''main''])"
        and 5: "this' =
         (if branchesToProcess [''main'', ''feature/a'', ''release/1.0''] ''main'' = []
          then listed ''main'' ps ?X
          else setOutputs (process_branches small (Date 1698790400000)
                 (branchesToProcess [''main'', ''feature/a'', ''release/1.0''] ''main'')
                 (listed ''main'' ps ?X)))"
        and 6: "\<forall>pre post. branchesToProcess [''main'', ''feature/a'', ''release/1.0''] ''main'' =
                  pre @ post \<longrightarrow>
                ''main'' \<in> set (protectedBranches (process_branches small (Date 1698790400000) pre
                         (listed ''main'' ps ?X)))"
      from 4 have p4: "protectedBranches (listed ''main'' ps ?X) = [''develop'', ''main'']"
        by simp
      from 5 have p5: "this' = setOutputs (process_branches small (Date 1698790400000)
                  [''feature/a'', ''release/1.0''] (listed ''main'' ps ?X))"
        by (simp add: branchesToProcess_def)
      from 6 [rule_format, OF bs]
      have p6: "''main'' \<in> set (protectedBranches (process_branches small (Date 1698790400000)
                  [''feature/a''] (listed ''main'' ps ?X)))" .
      show ?thesis
        by (intro conjI exI [of _ this'] exI [of _ ps])
          (rule d small_listing small_cutoff bs r 1 2 3 p4 p5 p6)+
    qed
  qed
qed

text \<open>
  C4. In a dry run no \<open>deleteRef\<close> request is ever issued, and every branch whose fetched
  date is before the cutoff is recorded in the deleted list.
\<close>

theorem dry_run_never_deletes:
  fixes days names pattern
  assumes "getAllBranches w that = Some (r, that')"
  shows "\<exists>this'. run w (constructor days True names pattern) = Some this' \<and>
           (\<forall>ref. DeleteRef ref \<notin> set (calls this')) \<and>
           (\<forall>b t. GetBranch b \<in> set (calls this') \<longrightarrow>
                  repos_getBranch w b = Inr (Date t) \<longrightarrow>
                  date_less (Date t) (setDate_back (LocalTZA w) (Date (clock w)) days) \<longrightarrow>
                  b \<in> set (deletedBranches this'))"
proof -
  from assms obtain this' where r: "run w (constructor days True names pattern) = Some this'"
    by (rule run_returns)
  have "(\<forall>ref. DeleteRef ref \<notin> set (calls this')) \<and>
           (\<forall>b t. GetBranch b \<in> set (calls this') \<longrightarrow>
                  repos_getBranch w b = Inr (Date t) \<longrightarrow>
                  date_less (Date t) (setDate_back (LocalTZA w) (Date (clock w)) days) \<longrightarrow>
                  b \<in> set (deletedBranches this'))"
    using r
  proof (cases rule: run_shape)
    case stopped
    from stopped(3) show ?thesis by blast
  next
    case (looped d c allBranches ps)
    let ?K = "constructor days True (withDefault d names) pattern"
    have dr: "dryRun ?K" by (simp add: constructor_fields)
    have no: "DeleteRef ref \<notin> set (calls this')" for ref
      using looped_calls [of "DeleteRef ref" w "Date c" "branchesToProcess allBranches d" d ps
          days True names pattern] step_dry_no_DeleteRef [OF dr]
      unfolding looped(5) by auto
    have old: "b \<in> set (deletedBranches this')"
      if g: "GetBranch b \<in> set (calls this')" and t: "repos_getBranch w b = Inr (Date t)"
        and o: "date_less (Date t) (Date c)" for b t
    proof -
      from g have "GetBranch b \<in> set (concat (map (\<lambda>b. calls (process_branch w (Date c) b (fresh ?K)))
          (branchesToProcess allBranches d)))"
        unfolding looped(5) by (auto simp: setOutputs_fields processed_fields)
      then have cand: "b \<in> set (branchesToProcess allBranches d)"
        and own: "GetBranch b \<in> set (calls (process_branch w (Date c) b (fresh ?K)))"
        unfolding in_report_GetBranch by simp_all
      have p: "b \<notin> set (protectedBranches ?K)"
        using own step_protected(3) [of b ?K w "Date c"] by auto
      have m: "\<not> matchesExcludePattern w ?K b"
        using own p step_excluded(3) [of b ?K w "Date c"] by auto
      have "deletedBranches (process_branch w (Date c) b (fresh ?K)) = [b]"
        by (rule step_dry_run [OF p m t o dr])
      with cand have "b \<in> set (concat (map (\<lambda>b. deletedBranches
          (process_branch w (Date c) b (fresh ?K))) (branchesToProcess allBranches d)))"
        unfolding in_report_deleted by simp
      then show ?thesis
        unfolding looped(5) by (simp only: setOutputs_fields processed_fields)
    qed
    from no old looped(2) show ?thesis by simp
  qed
  with r show ?thesis by blast
qed

theorem dry_run_never_deletes_witness:
  "(\<exists>this'. run small (constructor (Some 14) True [''main''] []) = Some this' \<and>
      (\<forall>ref. DeleteRef ref \<notin> set (calls this')) \<and>
      GetBranch ''feature/a'' \<in> set (calls this') \<and>
      repos_getBranch small ''feature/a'' = Inr (Date 1698704000000) \<and>
      date_less (Date 1698704000000) (setDate_back (LocalTZA small) (Date (clock small)) (Some 14)) \<and>
      ''feature/a'' \<in> set (deletedBranches this'))"
proof -
  from dry_run_never_deletes [OF small_listing, of "Some 14" "[''main'']" "[]"]
  obtain this' where r: "run small (constructor (Some 14) True [''main''] []) = Some this'"
    and no: "\<forall>ref. DeleteRef ref \<notin> set (calls this')"
    and old: "\<forall>b t. GetBranch b \<in> set (calls this') \<longrightarrow>
                  repos_getBranch small b = Inr (Date t) \<longrightarrow>
                  date_less (Date t) (setDate_back (LocalTZA small) (Date (clock small)) (Some 14)) \<longrightarrow>
                  b \<in> set (deletedBranches this')"
    by blast
  have e: "run small (constructor (Some 14) True [''main''] []) = Some small_dry"
    by (simp add: small_def small_dry_def run_defs)
  with r have s: "this' = small_dry" by simp
  have g: "GetBranch ''feature/a'' \<in> set (calls this')" by (simp add: s small_dry_def)
  have t: "repos_getBranch small ''feature/a'' = Inr (Date 1698704000000)"
    by (simp add: small_def)
  have o: "date_less (Date 1698704000000) (setDate_back (LocalTZA small) (Date (clock small)) (Some 14))"
    by (simp add: small_def TimeClip_def msPerDay_def LocalTime_def UTC_def Day_def
      TimeWithinDay_def MakeDate_def)
  from old g t o have "''feature/a'' \<in> set (deletedBranches this')" by blast
  with r no g t o show ?thesis by blast
qed

text \<open>
  C5. When every \<open>deleteRef\<close> request of a live run succeeds, the dry run with the same
  configuration on the same repository returns the same deleted and skipped lists; its
  calls are those of the live run without the \<open>deleteRef\<close> requests.
\<close>

theorem dry_run_report_equals_live:
  fixes days names pattern
  assumes "run w (constructor days False names pattern) = Some live"
    and "\<forall>ref. DeleteRef ref \<in> set (calls live) \<longrightarrow> git_deleteRef w ref = Inr ()"
  shows "\<exists>dry. run w (constructor days True names pattern) = Some dry \<and>
           deletedBranches dry = deletedBranches live \<and>
           skippedBranches dry = skippedBranches live \<and>
           calls dry = filter (\<lambda>k. \<not> is_DeleteRef k) (calls live)"
  using assms(1)
proof (cases rule: run_cases)
  case (no_default e)
  from run_no_default [OF no_default(1), of "constructor days True names pattern"]
  show ?thesis by (simp add: no_default(2) issue_def constructor_def)
next
  case (no_cutoff d)
  from no_cutoff(2) have "setDate_back (LocalTZA w) (Date (clock w))
      (daysOld (constructor days True names pattern)) = InvalidDate"
    by (simp add: constructor_fields)
  from run_no_cutoff [OF no_cutoff(1) this]
  show ?thesis by (simp add: no_cutoff(3) issue_def constructor_def addDefaultBranch_def)
next
  case (no_listing d c e ps)
  from no_listing(2) have "setDate_back (LocalTZA w) (Date (clock w))
      (daysOld (constructor days True names pattern)) = Date c"
    by (simp add: constructor_fields)
  from run_no_listing [OF no_listing(1) this no_listing(3)]
  show ?thesis
    by (simp add: no_listing(4) issue_def listed_fields constructor_fields filter_ListBranches)
next
  case (no_branches d c allBranches ps)
  from no_branches(2) have "setDate_back (LocalTZA w) (Date (clock w))
      (daysOld (constructor days True names pattern)) = Date c"
    by (simp add: constructor_fields)
  from run_listed [OF no_branches(1) this no_branches(3)]
  show ?thesis
    by (simp add: no_branches(4,5) listed_fields constructor_fields filter_ListBranches)
next
  case (processed d c allBranches ps)
  let ?bs = "branchesToProcess allBranches d"
  let ?L = "constructor days False (withDefault d names) pattern"
  let ?D = "constructor days True (withDefault d names) pattern"
  let ?dry = "setOutputs (process_branches w (Date c) ?bs
      (listed d ps (constructor days True names pattern)))"
  from processed(2) have "setDate_back (LocalTZA w) (Date (clock w))
      (daysOld (constructor days True names pattern)) = Date c"
    by (simp add: constructor_fields)
  from run_listed [OF processed(1) this processed(3)] processed(4)
  have r: "run w (constructor days True names pattern) = Some ?dry" by simp
  have live_calls: "calls live = ReposGet # map ListBranches ps @
      concat (map (\<lambda>b. calls (process_branch w (Date c) b (fresh ?L))) ?bs) @
      [SetOutput ''deleted-branches'' (JNames (deletedBranches live)),
       SetOutput ''skipped-branches'' (JSkipped (skippedBranches live))]"
    by (simp add: processed(5) setOutputs_fields processed_fields)
  have ok: "git_deleteRef w (''heads/'' @ b) = Inr ()"
    if "b \<in> set ?bs"
      "DeleteRef (''heads/'' @ b) \<in> set (calls (process_branch w (Date c) b (fresh ?L)))" for b
  proof -
    from that have "DeleteRef (''heads/'' @ b) \<in> set (calls live)"
      unfolding live_calls by auto
    with assms(2) show ?thesis by blast
  qed
  have cfg: "dryRun ?D" "\<not> dryRun ?L" "protectedBranches ?D = protectedBranches ?L"
    "excludePattern ?D = excludePattern ?L"
    by (simp_all add: constructor_fields)
  have step1: "deletedBranches (process_branch w (Date c) b (fresh ?D)) =
         deletedBranches (process_branch w (Date c) b (fresh ?L))" if "b \<in> set ?bs" for b
    by (rule step_dry_vs_live(1) [OF cfg ok [OF that]])
  have step2: "skippedBranches (process_branch w (Date c) b (fresh ?D)) =
         skippedBranches (process_branch w (Date c) b (fresh ?L))" if "b \<in> set ?bs" for b
    by (rule step_dry_vs_live(2) [OF cfg ok [OF that]])
  have step3: "calls (process_branch w (Date c) b (fresh ?D)) =
         filter (\<lambda>k. \<not> is_DeleteRef k) (calls (process_branch w (Date c) b (fresh ?L)))"
    if "b \<in> set ?bs" for b
    by (rule step_dry_vs_live(3) [OF cfg ok [OF that]])
  have del: "deletedBranches ?dry = deletedBranches live"
    unfolding processed(5) setOutputs_fields processed_fields
    by (rule arg_cong [where f = concat]) (simp add: step1)
  have skip: "skippedBranches ?dry = skippedBranches live"
    unfolding processed(5) setOutputs_fields processed_fields
    by (rule arg_cong [where f = concat]) (simp add: step2)
  have "concat (map (\<lambda>b. calls (process_branch w (Date c) b (fresh ?D))) ?bs) =
        filter (\<lambda>k. \<not> is_DeleteRef k)
          (concat (map (\<lambda>b. calls (process_branch w (Date c) b (fresh ?L))) ?bs))"
    unfolding filter_concat map_map comp_def
    by (rule arg_cong [where f = concat]) (simp add: step3)
  then have "calls ?dry = filter (\<lambda>k. \<not> is_DeleteRef k) (calls live)"
    unfolding live_calls del [symmetric] skip [symmetric]
    by (simp add: setOutputs_fields processed_fields filter_ListBranches)
  with r del skip show ?thesis by blast
qed

theorem dry_run_report_equals_live_witness:
  "run small (constructor (Some 14) False [''main''] []) = Some small_live \<and>
   DeleteRef ''heads/feature/a'' \<in> set (calls small_live) \<and>
   git_deleteRef small ''heads/feature/a'' = Inr () \<and>
   (\<exists>dry. run small (constructor (Some 14) True [''main''] []) = Some dry \<and>
      deletedBranches dry = [''feature/a''] \<and>
      skippedBranches dry = [(''release/1.0'', ''too_recent'')] \<and>
      calls dry = [ReposGet, ListBranches 1, GetBranch ''feature/a'', GetBranch ''release/1.0'',
        SetOutput ''deleted-branches'' (JNames [''feature/a'']),
        SetOutput ''skipped-branches'' (JSkipped [(''release/1.0'', ''too_recent'')])])"
proof -
  have ok: "\<forall>ref. DeleteRef ref \<in> set (calls small_live) \<longrightarrow> git_deleteRef small ref = Inr ()"
    by (simp add: small_def)
  have c: "DeleteRef ''heads/feature/a'' \<in> set (calls small_live)"
    by (simp add: small_live_def)
  from dry_run_report_equals_live [OF small_run_live ok]
  obtain dry where "run small (constructor (Some 14) True [''main''] []) = Some dry"
    "deletedBranches dry = deletedBranches small_live"
    "skippedBranches dry = skippedBranches small_live"
    "calls dry = filter (\<lambda>k. \<not> is_DeleteRef k) (calls small_live)"
    by blast
  then have "run small (constructor (Some 14) True [''main''] []) = Some dry \<and>
      deletedBranches dry = [''feature/a''] \<and>
      skippedBranches dry = [(''release/1.0'', ''too_recent'')] \<and>
      calls dry = [ReposGet, ListBranches 1, GetBranch ''feature/a'', GetBranch ''release/1.0'',
        SetOutput ''deleted-branches'' (JNames [''feature/a'']),
        SetOutput ''skipped-branches'' (JSkipped [(''release/1.0'', ''too_recent'')])]"
    by (simp add: small_live_def)
  moreover have "git_deleteRef small ''heads/feature/a'' = Inr ()" by (simp add: small_def)
  ultimately show ?thesis using small_run_live c by blast
qed

text \<open>
  C6. A branch whose \<open>getBranch\<close> request fails is skipped with \<open>error_processing\<close>,
  and one whose \<open>deleteRef\<close> request fails is skipped with \<open>deletion_failed\<close>; the run
  goes on to its end without a failure and sets its outputs, and what the report says of
  every other branch is what it says on a repository that differs only in the answers
  about this branch.
\<close>

theorem branch_failures_isolated:
  fixes days dry names pattern
  assumes "repos_get w = Inr d"
    and "setDate_back (LocalTZA w) (Date (clock w)) days = Date c"
    and "getAllBranches w that = Some (Inr allBranches, that')"
    and "b \<in> set (branchesToProcess allBranches d)"
    and "b \<notin> set names"
    and "\<not> matchesExcludePattern w (constructor days dry names pattern) b"
  shows "\<exists>this'. run w (constructor days dry names pattern) = Some this' \<and>
     SetFailed \<notin> set (calls this') \<and>
     SetOutput ''deleted-branches'' (JNames (deletedBranches this')) \<in> set (calls this') \<and>
     SetOutput ''skipped-branches'' (JSkipped (skippedBranches this')) \<in> set (calls this') \<and>
     ((\<exists>e. repos_getBranch w b = Inl e) \<longrightarrow>
        (b, ''error_processing'') \<in> set (skippedBranches this') \<and>
        b \<notin> set (deletedBranches this')) \<and>
     ((\<exists>t e. repos_getBranch w b = Inr (Date t) \<and> t < c \<and> \<not> dry \<and>
          git_deleteRef w (''heads/'' @ b) = Inl e) \<longrightarrow>
        (b, ''deletion_failed'') \<in> set (skippedBranches this') \<and>
        b \<notin> set (deletedBranches this')) \<and>
     (\<forall>w2. repos_get w2 = repos_get w \<and> repos_listBranches w2 = repos_listBranches w \<and>
          clock w2 = clock w \<and> LocalTZA w2 = LocalTZA w \<and> RegExp w2 = RegExp w \<and>
          (\<forall>x. x \<noteq> b \<longrightarrow> repos_getBranch w2 x = repos_getBranch w x \<and>
             git_deleteRef w2 (''heads/'' @ x) = git_deleteRef w (''heads/'' @ x)) \<longrightarrow>
        (\<exists>this2. run w2 (constructor days dry names pattern) = Some this2 \<and>
           SetFailed \<notin> set (calls this2) \<and>
           filter (\<lambda>x. x \<noteq> b) (deletedBranches this2) =
             filter (\<lambda>x. x \<noteq> b) (deletedBranches this') \<and>
           filter (\<lambda>(x, r). x \<noteq> b) (skippedBranches this2) =
             filter (\<lambda>(x, r). x \<noteq> b) (skippedBranches this')))"
proof (rule run_total [OF assms(1-3), where dry = dry and names = names and pattern = pattern])
  let ?K = "constructor days dry (withDefault d names) pattern"
  let ?X = "constructor days dry names pattern"
  let ?bs = "branchesToProcess allBranches d"
  fix this' ps
  assume r: "run w ?X = Some this'"
    and nf: "SetFailed \<notin> set (calls this')"
    and del: "deletedBranches this' =
       concat (map (\<lambda>b. deletedBranches (process_branch w (Date c) b (fresh ?K))) ?bs)"
    and skip: "skippedBranches this' =
       concat (map (\<lambda>b. skippedBranches (process_branch w (Date c) b (fresh ?K))) ?bs)"
    and cs: "calls this' = ReposGet # map ListBranches ps @
       concat (map (\<lambda>b. calls (process_branch w (Date c) b (fresh ?K))) ?bs) @
       (if ?bs = [] then []
        else [SetOutput ''deleted-branches'' (JNames (deletedBranches this')),
              SetOutput ''skipped-branches'' (JSkipped (skippedBranches this'))])"
  note cand = assms(4)
  from cand have ne: "?bs \<noteq> []" by auto
  from assms(4,5) have p: "b \<notin> set (protectedBranches ?K)"
    by (simp add: constructor_fields in_withDefault candidate_not_default)
  from assms(6) have m: "\<not> matchesExcludePattern w ?K b"
    using matchesExcludePattern_pattern [of ?K ?X w b] by (simp add: constructor_fields)
  have dr: "dryRun ?K = dry" by (simp add: constructor_fields)
  have out: "SetOutput ''deleted-branches'' (JNames (deletedBranches this')) \<in> set (calls this')"
    "SetOutput ''skipped-branches'' (JSkipped (skippedBranches this')) \<in> set (calls this')"
    by (subst cs, simp add: ne)+
  have inD: "b \<in> set (deletedBranches this') \<longleftrightarrow>
      b \<in> set (deletedBranches (process_branch w (Date c) b (fresh ?K)))"
    and inS: "\<And>r. (b, r) \<in> set (skippedBranches this') \<longleftrightarrow>
      (b, r) \<in> set (skippedBranches (process_branch w (Date c) b (fresh ?K)))"
    unfolding del skip in_report_deleted in_report_skipped using cand by simp_all
  have fetch: "(b, ''error_processing'') \<in> set (skippedBranches this') \<and>
      b \<notin> set (deletedBranches this')" if "repos_getBranch w b = Inl e" for e
    unfolding inD inS step_fetch_failed [OF p m that] by simp
  have delete: "(b, ''deletion_failed'') \<in> set (skippedBranches this') \<and>
      b \<notin> set (deletedBranches this')"
    if "repos_getBranch w b = Inr (Date t)" "t < c" "\<not> dry"
      "git_deleteRef w (''heads/'' @ b) = Inl e" for t e
  proof -
    from that(2) have o: "date_less (Date t) (Date c)" by simp
    from that(3) dr have nd: "\<not> dryRun ?K" by simp
    show ?thesis
      unfolding inD inS step_deletion_failed [OF p m that(1) o nd that(4)] by simp
  qed
  have others: "\<exists>this2. run w2 ?X = Some this2 \<and>
           SetFailed \<notin> set (calls this2) \<and>
           filter (\<lambda>x. x \<noteq> b) (deletedBranches this2) =
             filter (\<lambda>x. x \<noteq> b) (deletedBranches this') \<and>
           filter (\<lambda>(x, r). x \<noteq> b) (skippedBranches this2) =
             filter (\<lambda>(x, r). x \<noteq> b) (skippedBranches this')"
    if w2: "repos_get w2 = repos_get w" "repos_listBranches w2 = repos_listBranches w"
      "clock w2 = clock w" "LocalTZA w2 = LocalTZA w" "RegExp w2 = RegExp w"
      "\<forall>x. x \<noteq> b \<longrightarrow> repos_getBranch w2 x = repos_getBranch w x \<and>
             git_deleteRef w2 (''heads/'' @ x) = git_deleteRef w (''heads/'' @ x)"
    for w2 :: world
  proof -
    have d2: "repos_get w2 = Inr d" using w2(1) assms(1) by simp
    have c2: "setDate_back (LocalTZA w2) (Date (clock w2)) days = Date c"
      using w2(3,4) assms(2) by simp
    from getAllBranches_same_listing [OF assms(3) w2(2)] obtain that2 where
      l2: "getAllBranches w2 that = Some (Inr allBranches, that2)" by blast
    show ?thesis
    proof (rule run_total [OF d2 c2 l2, where dry = dry and names = names and pattern = pattern])
      fix this2
      assume r2: "run w2 ?X = Some this2"
        and nf2: "SetFailed \<notin> set (calls this2)"
        and del2: "deletedBranches this2 =
          concat (map (\<lambda>b. deletedBranches (process_branch w2 (Date c) b (fresh ?K))) ?bs)"
        and skip2: "skippedBranches this2 =
          concat (map (\<lambda>b. skippedBranches (process_branch w2 (Date c) b (fresh ?K))) ?bs)"
      have "filter (\<lambda>x. x \<noteq> b) (deletedBranches this2) =
             filter (\<lambda>x. x \<noteq> b) (deletedBranches this')"
        unfolding del del2 by (rule report_of_others(1) [OF w2(5,6)])
      moreover have "filter (\<lambda>(x, r). x \<noteq> b) (skippedBranches this2) =
             filter (\<lambda>(x, r). x \<noteq> b) (skippedBranches this')"
        unfolding skip skip2 by (rule report_of_others(2) [OF w2(5,6)])
      ultimately show ?thesis using r2 nf2 by blast
    qed
  qed
  from r nf out fetch delete others show ?thesis by blast
qed

theorem branch_failures_isolated_witness:
  "repos_get faulty = Inr ''main'' \<and>
   ''gone'' \<in> set (branchesToProcess [''main'', ''gone'', ''locked'', ''feature/a''] ''main'') \<and>
   repos_getBranch faulty ''gone'' = Inl RequestError \<and>
   repos_getBranch faulty ''locked'' = Inr (Date 0) \<and>
   git_deleteRef faulty ''heads/locked'' = Inl RequestError \<and>
   repos_getBranch repaired ''locked'' = repos_getBranch faulty ''locked'' \<and>
   repos_getBranch repaired ''gone'' = Inr (Date 0) \<and>
   (\<exists>this'. run faulty (constructor (Some 14) False [''main''] []) = Some this' \<and>
      SetFailed \<notin> set (calls this') \<and>
      (''gone'', ''error_processing'') \<in> set (skippedBranches this') \<and>
      (''locked'', ''deletion_failed'') \<in> set (skippedBranches this') \<and>
      ''feature/a'' \<in> set (deletedBranches this') \<and>
      (\<exists>this2. run repaired (constructor (Some 14) False [''main''] []) = Some this2 \<and>
         filter (\<lambda>x. x \<noteq> ''gone'') (deletedBranches this2) =
           filter (\<lambda>x. x \<noteq> ''gone'') (deletedBranches this') \<and>
         filter (\<lambda>(x, r). x \<noteq> ''gone'') (skippedBranches this2) =
           filter (\<lambda>(x, r). x \<noteq> ''gone'') (skippedBranches this')))"
proof -
  let ?bs = "[''main'', ''gone'', ''locked'', ''feature/a'']"
  let ?X = "constructor (Some 14) False [''main''] []"
  have d: "repos_get faulty = Inr ''main''" by (simp add: faulty_def)
  have c: "setDate_back (LocalTZA faulty) (Date (clock faulty)) (Some 14) = Date 1698790400000"
    by (simp add: faulty_def TimeClip_def msPerDay_def LocalTime_def UTC_def Day_def
      TimeWithinDay_def MakeDate_def)
  have b1: "''gone'' \<in> set (branchesToProcess ?bs ''main'')"
    and b2: "''locked'' \<in> set (branchesToProcess ?bs ''main'')"
    by (simp_all add: branchesToProcess_def)
  have n1: "''gone'' \<notin> set [''main'']" and n2: "''locked'' \<notin> set [''main'']" by simp_all
  have m: "\<not> matchesExcludePattern faulty ?X x" for x
    by (simp add: matchesExcludePattern_def constructor_def)
  have g1: "repos_getBranch faulty ''gone'' = Inl RequestError"
    and g2: "repos_getBranch faulty ''locked'' = Inr (Date 0)"
    and g3: "git_deleteRef faulty ''heads/locked'' = Inl RequestError"
    by (simp_all add: faulty_def)
  have a: "repos_get repaired = repos_get faulty"
    "repos_listBranches repaired = repos_listBranches faulty"
    "clock repaired = clock faulty" "LocalTZA repaired = LocalTZA faulty"
    "RegExp repaired = RegExp faulty"
    and a1: "\<forall>x. x \<noteq> ''gone'' \<longrightarrow> repos_getBranch repaired x = repos_getBranch faulty x"
    and a2: "\<forall>x. git_deleteRef repaired (''heads/'' @ x) = git_deleteRef faulty (''heads/'' @ x)"
    by (simp_all add: repaired_def faulty_def)
  from branch_failures_isolated [OF d c faulty_listing b1 n1 m] faulty_run g1 a a1 a2
  have 1: "(''gone'', ''error_processing'') \<in> set (skippedBranches faulty_report) \<and>
      SetFailed \<notin> set (calls faulty_report) \<and>
      (\<exists>this2. run repaired ?X = Some this2 \<and>
         filter (\<lambda>x. x \<noteq> ''gone'') (deletedBranches this2) =
           filter (\<lambda>x. x \<noteq> ''gone'') (deletedBranches faulty_report) \<and>
         filter (\<lambda>(x, r). x \<noteq> ''gone'') (skippedBranches this2) =
           filter (\<lambda>(x, r). x \<noteq> ''gone'') (skippedBranches faulty_report))"
    by auto
  from branch_failures_isolated [OF d c faulty_listing b2 n2 m] faulty_run g2 g3
  have 2: "(''locked'', ''deletion_failed'') \<in> set (skippedBranches faulty_report)"
    by auto
  have 3: "''feature/a'' \<in> set (deletedBranches faulty_report)"
    by (simp add: faulty_report_def)
  have 4: "repos_getBranch repaired ''locked'' = repos_getBranch faulty ''locked''"
    "repos_getBranch repaired ''gone'' = Inr (Date 0)"
    by (simp_all add: repaired_def faulty_def)
  from 1 2 3 4 faulty_run d b1 g1 g2 g3 show ?thesis by blast
qed

text \<open>
  C7. With an exclude pattern that does not compile, the run does not fail: no branch is
  skipped with \<open>matches_exclude_pattern\<close>, and the report and the calls are those of the
  run without a pattern.
\<close>

theorem invalid_pattern_never_matches:
  fixes days dry names pattern
  assumes "repos_get w = Inr d"
    and "setDate_back (LocalTZA w) (Date (clock w)) days = Date c"
    and "getAllBranches w that = Some (Inr allBranches, that')"
    and "RegExp w pattern = Inl e"
  shows "\<exists>this'. run w (constructor days dry names pattern) = Some this' \<and>
           SetFailed \<notin> set (calls this') \<and>
           (\<forall>b. (b, ''matches_exclude_pattern'') \<notin> set (skippedBranches this')) \<and>
           run w (constructor days dry names []) = Some (this'\<lparr>excludePattern := []\<rparr>)"
proof (rule run_by_branch [OF assms(1-3), where dry = dry and names = names and pattern = pattern])
  let ?K = "constructor days dry (withDefault d names) pattern"
  let ?X = "constructor days dry names pattern"
  let ?bs = "branchesToProcess allBranches d"
  fix this'
  assume r: "run w ?X = Some this'"
    and nf: "SetFailed \<notin> set (calls this')"
    and skip: "\<And>x r. (x, r) \<in> set (skippedBranches this') \<longleftrightarrow>
           x \<in> set (branchesToProcess allBranches d) \<and>
           (x, r) \<in> set (skippedBranches (process_branch w (Date c) x (fresh ?K)))"
  have m: "\<not> matchesExcludePattern w ?K b" for b
    by (simp add: matchesExcludePattern_def constructor_fields assms(4))
  have never: "(b, ''matches_exclude_pattern'') \<notin> set (skippedBranches this')" for b
    by (simp add: skip step_not_excluded [OF m])
  from assms(3) obtain ps where
    tr: "\<And>that. getAllBranches w that =
           Some (Inr allBranches, that\<lparr>calls := calls that @ map ListBranches ps\<rparr>)"
    by (rule getAllBranches_any) blast
  have c1: "setDate_back (LocalTZA w) (Date (clock w)) (daysOld ?X) = Date c"
    and c0: "setDate_back (LocalTZA w) (Date (clock w)) (daysOld (constructor days dry names [])) = Date c"
    using assms(2) by (simp_all add: constructor_fields)
  have l0: "listed d ps (constructor days dry names []) = (listed d ps ?X)\<lparr>excludePattern := []\<rparr>"
    by (simp add: listed_def addDefaultBranch_def constructor_def)
  have bad: "RegExp w (excludePattern (listed d ps ?X)) = Inl e"
    by (simp add: listed_fields constructor_fields assms(4))
  have o: "setOutputs (s\<lparr>excludePattern := []\<rparr>) = (setOutputs s)\<lparr>excludePattern := []\<rparr>" for s
    by (simp add: setOutputs_def issue_def)
  from run_listed [OF assms(1) c1 tr] r
  have this': "this' = (if ?bs = [] then listed d ps ?X
           else setOutputs (process_branches w (Date c) ?bs (listed d ps ?X)))"
    by simp
  have "run w (constructor days dry names []) = Some (this'\<lparr>excludePattern := []\<rparr>)"
    unfolding run_listed [OF assms(1) c0 tr] this' l0 loop_bad_pattern [OF bad] o
    by simp
  with r nf never show ?thesis by blast
qed

theorem invalid_pattern_never_matches_witness:
  "repos_get guarded = Inr ''main'' \<and>
   RegExp guarded ''('' = Inl SyntaxError \<and>
   (\<exists>this'. run guarded (constructor (Some 14) False [''develop''] ''('') = Some this' \<and>
      SetFailed \<notin> set (calls this') \<and>
      (''tmp/x'', ''matches_exclude_pattern'') \<notin> set (skippedBranches this') \<and>
      run guarded (constructor (Some 14) False [''develop''] []) =
        Some (this'\<lparr>excludePattern := []\<rparr>))"
proof -
  have d: "repos_get guarded = Inr ''main''" by (simp add: guarded_def)
  have x: "RegExp guarded ''('' = Inl SyntaxError" by (simp add: guarded_def)
  from invalid_pattern_never_matches [OF d guarded_cutoff guarded_listing x,
      where dry = False and names = "[''develop'']"] d x
  show ?thesis by blast
qed

text \<open>
  C8. A candidate branch whose name is among the protected names is skipped with the reason
  \<open>protected\<close>, with no other reason, is not deleted, and \<open>getBranch\<close> is never
  requested for it.
\<close>

theorem protected_branch_skipped_unfetched:
  fixes days dry names pattern
  assumes "repos_get w = Inr d"
    and "setDate_back (LocalTZA w) (Date (clock w)) days = Date c"
    and "getAllBranches w that = Some (Inr allBranches, that')"
    and "b \<in> set (branchesToProcess allBranches d)"
    and "b \<in> set names"
  shows "\<exists>this'. run w (constructor days dry names pattern) = Some this' \<and>
           SetFailed \<notin> set (calls this') \<and>
           (b, ''protected'') \<in> set (skippedBranches this') \<and>
           (\<forall>r. (b, r) \<in> set (skippedBranches this') \<longrightarrow> r = ''protected'') \<and>
           b \<notin> set (deletedBranches this') \<and>
           GetBranch b \<notin> set (calls this')"
proof (rule run_by_branch [OF assms(1-3), where dry = dry and names = names and pattern = pattern])
  let ?K = "constructor days dry (withDefault d names) pattern"
  fix this'
  assume r: "run w (constructor days dry names pattern) = Some this'"
    and nf: "SetFailed \<notin> set (calls this')"
    and del: "\<And>x. x \<in> set (deletedBranches this') \<longleftrightarrow>
           x \<in> set (branchesToProcess allBranches d) \<and>
           x \<in> set (deletedBranches (process_branch w (Date c) x (fresh ?K)))"
    and skip: "\<And>x r. (x, r) \<in> set (skippedBranches this') \<longleftrightarrow>
           x \<in> set (branchesToProcess allBranches d) \<and>
           (x, r) \<in> set (skippedBranches (process_branch w (Date c) x (fresh ?K)))"
    and get: "\<And>x. GetBranch x \<in> set (calls this') \<longleftrightarrow>
           x \<in> set (branchesToProcess allBranches d) \<and>
           GetBranch x \<in> set (calls (process_branch w (Date c) x (fresh ?K)))"
  from assms(5) have p: "b \<in> set (protectedBranches ?K)"
    by (simp add: constructor_fields in_withDefault)
  have "(b, ''protected'') \<in> set (skippedBranches this')"
    using assms(4) by (simp add: skip step_protected [OF p])
  moreover have "\<forall>r. (b, r) \<in> set (skippedBranches this') \<longrightarrow> r = ''protected''"
    by (simp add: skip step_protected [OF p])
  moreover have "b \<notin> set (deletedBranches this')"
    by (simp add: del step_protected [OF p])
  moreover have "GetBranch b \<notin> set (calls this')"
    by (simp add: get step_protected [OF p])
  ultimately show ?thesis using r nf by blast
qed

theorem protected_branch_skipped_unfetched_witness:
  "repos_get guarded = Inr ''main'' \<and>
   ''develop'' \<in> set (branchesToProcess [''main'', ''develop'', ''tmp/x''] ''main'') \<and>
   repos_getBranch guarded ''develop'' = Inl RequestError \<and>
   (\<exists>this'. run guarded (constructor (Some 14) False [''develop''] ''^tmp/'') = Some this' \<and>
      (''develop'', ''protected'') \<in> set (skippedBranches this') \<and>
      GetBranch ''develop'' \<notin> set (calls this'))"
proof -
  have d: "repos_get guarded = Inr ''main''" by (simp add: guarded_def)
  have b: "''develop'' \<in> set (branchesToProcess [''main'', ''develop'', ''tmp/x''] ''main'')"
    by (simp add: branchesToProcess_def)
  have n: "''develop'' \<in> set [''develop'']" by simp
  have e: "repos_getBranch guarded ''develop'' = Inl RequestError" by (simp add: guarded_def)
  from protected_branch_skipped_unfetched [OF d guarded_cutoff guarded_listing b n,
      where dry = False and pattern = "''^tmp/''"] d b e
  show ?thesis by blast
qed

text \<open>
  C9. A candidate branch that is not protected and whose name matches a valid exclude
  pattern is skipped with the reason \<open>matches_exclude_pattern\<close>, whatever the branch
  source would answer about its last commit, and \<open>getBranch\<close> is never requested for it.
\<close>

theorem excluded_branch_skipped_unfetched:
  fixes days dry names pattern
  assumes "repos_get w = Inr d"
    and "setDate_back (LocalTZA w) (Date (clock w)) days = Date c"
    and "getAllBranches w that = Some (Inr allBranches, that')"
    and "b \<in> set (branchesToProcess allBranches d)"
    and "b \<notin> set names"
    and "pattern \<noteq> []"
    and "RegExp w pattern = Inr regex"
    and "regex b"
  shows "\<exists>this'. run w (constructor days dry names pattern) = Some this' \<and>
           SetFailed \<notin> set (calls this') \<and>
           (b, ''matches_exclude_pattern'') \<in> set (skippedBranches this') \<and>
           (\<forall>r. (b, r) \<in> set (skippedBranches this') \<longrightarrow> r = ''matches_exclude_pattern'') \<and>
           b \<notin> set (deletedBranches this') \<and>
           GetBranch b \<notin> set (calls this')"
proof (rule run_by_branch [OF assms(1-3), where dry = dry and names = names and pattern = pattern])
  let ?K = "constructor days dry (withDefault d names) pattern"
  fix this'
  assume r: "run w (constructor days dry names pattern) = Some this'"
    and nf: "SetFailed \<notin> set (calls this')"
    and del: "\<And>x. x \<in> set (deletedBranches this') \<longleftrightarrow>
           x \<in> set (branchesToProcess allBranches d) \<and>
           x \<in> set (deletedBranches (process_branch w (Date c) x (fresh ?K)))"
    and skip: "\<And>x r. (x, r) \<in> set (skippedBranches this') \<longleftrightarrow>
           x \<in> set (branchesToProcess allBranches d) \<and>
           (x, r) \<in> set (skippedBranches (process_branch w (Date c) x (fresh ?K)))"
    and get: "\<And>x. GetBranch x \<in> set (calls this') \<longleftrightarrow>
           x \<in> set (branchesToProcess allBranches d) \<and>
           GetBranch x \<in> set (calls (process_branch w (Date c) x (fresh ?K)))"
  from assms(4,5) have p: "b \<notin> set (protectedBranches ?K)"
    by (simp add: constructor_fields in_withDefault candidate_not_default)
  from assms(6-8) have m: "matchesExcludePattern w ?K b"
    by (simp add: matchesExcludePattern_def constructor_fields)
  have "(b, ''matches_exclude_pattern'') \<in> set (skippedBranches this')"
    using assms(4) by (simp add: skip step_excluded [OF p m])
  moreover have "\<forall>r. (b, r) \<in> set (skippedBranches this') \<longrightarrow> r = ''matches_exclude_pattern''"
    by (simp add: skip step_excluded [OF p m])
  moreover have "b \<notin> set (deletedBranches this')"
    by (simp add: del step_excluded [OF p m])
  moreover have "GetBranch b \<notin> set (calls this')"
    by (simp add: get step_excluded [OF p m])
  ultimately show ?thesis using r nf by blast
qed

theorem excluded_branch_skipped_unfetched_witness:
  "repos_get guarded = Inr ''main'' \<and>
   ''tmp/x'' \<in> set (branchesToProcess [''main'', ''develop'', ''tmp/x''] ''main'') \<and>
   ''tmp/x'' \<notin> set [''develop''] \<and>
   RegExp guarded ''^tmp/'' = Inr (\<lambda>s. take 4 s = ''tmp/'') \<and>
   (\<exists>this'. run guarded (constructor (Some 14) False [''develop''] ''^tmp/'') = Some this' \<and>
      (''tmp/x'', ''matches_exclude_pattern'') \<in> set (skippedBranches this') \<and>
      GetBranch ''tmp/x'' \<notin> set (calls this'))"
proof -
  have d: "repos_get guarded = Inr ''main''" by (simp add: guarded_def)
  have b: "''tmp/x'' \<in> set (branchesToProcess [''main'', ''develop'', ''tmp/x''] ''main'')"
    by (simp add: branchesToProcess_def)
  have n: "''tmp/x'' \<notin> set [''develop'']" by simp
  have p: "''^tmp/'' \<noteq> []" by simp
  have x: "RegExp guarded ''^tmp/'' = Inr (\<lambda>s. take 4 s = ''tmp/'')" by (simp add: guarded_def)
  have m: "take 4 ''tmp/x'' = ''tmp/''" by simp
  from excluded_branch_skipped_unfetched [OF d guarded_cutoff guarded_listing b n p x m,
      where dry = False] d b n x
  show ?thesis by blast
qed

text \<open>
  C10. The report is not passed to \<open>setOutput\<close> when the default branch is the only
  branch: the run returns before the loop, without a failure and without any output.
\<close>

theorem no_outputs_without_candidates:
  "run only_default (constructor (Some 14) False [''main''] []) =
     Some \<lparr>daysOld = Some 14, dryRun = False, protectedBranches = [''main''],
       excludePattern = [], deletedBranches = [], skippedBranches = [],
       calls = [ReposGet, ListBranches 1]\<rparr>"
  by (simp add: only_default_def run_defs)

end
